theory Spec2Isabelle
  imports Main "HOL-Library.AList"
begin

section \<open>JavaScript values\<close>

text \<open>
  The values that travel through \<^verbatim>\<open>AsyncCall\<close> have the TypeScript type \<^verbatim>\<open>any\<close>.
  The embedding keeps the part of them the code inspects: the primitives, plain objects
  with their own enumerable properties, and \<^verbatim>\<open>Error\<close> objects with \<^verbatim>\<open>message\<close> and
  \<^verbatim>\<open>stack\<close>. Every object also carries the metadata that \<^verbatim>\<open>Reflect.defineMetadata\<close>
  has attached to it (the last component). Numbers are integers; functions, arrays and
  symbols as values are left out. Objects are values here, so two references to one
  object are two equal values.
\<close>

datatype jsval =
    VUndefined
  | VNull
  | VBool bool
  | VNum int
  | VStr string
  | VObject "(string \<times> jsval) list" "(string \<times> jsval) list"
  | VError string jsval "(string \<times> jsval) list"

text \<open>\<^verbatim>\<open>isObject\<close>, lines 227-229.\<close>

fun isObject :: "jsval \<Rightarrow> bool" where
  "isObject (VObject ps ms) = True"
| "isObject (VError m s ms) = True"
| "isObject v = False"

text \<open>JavaScript truthiness, as \<^verbatim>\<open>if (x)\<close>, \<^verbatim>\<open>!x\<close> and \<^verbatim>\<open>x || y\<close> test it.\<close>

fun truthy :: "jsval \<Rightarrow> bool" where
  "truthy VUndefined = False"
| "truthy VNull = False"
| "truthy (VBool b) = b"
| "truthy (VNum n) = (n \<noteq> 0)"
| "truthy (VStr s) = (s \<noteq> [])"
| "truthy (VObject ps ms) = True"
| "truthy (VError m s ms) = True"

text \<open>\<^verbatim>\<open>x == null\<close>: reading a property of such a value throws a TypeError.\<close>

fun nullish :: "jsval \<Rightarrow> bool" where
  "nullish VUndefined = True"
| "nullish VNull = True"
| "nullish v = False"

text \<open>\<^verbatim>\<open>err instanceof Error\<close>.\<close>

fun instanceofError :: "jsval \<Rightarrow> bool" where
  "instanceofError (VError m s ms) = True"
| "instanceofError v = False"

text \<open>The property read \<^verbatim>\<open>v.name\<close> on a value that is not nullish.\<close>

fun get_prop :: "jsval \<Rightarrow> string \<Rightarrow> jsval" where
  "get_prop (VObject ps ms) name = (case map_of ps name of None \<Rightarrow> VUndefined | Some v \<Rightarrow> v)"
| "get_prop (VError m s ms) name =
     (if name = ''message'' then VStr m else if name = ''stack'' then s else VUndefined)"
| "get_prop v name = VUndefined"

text \<open>\<^verbatim>\<open>Object.entries\<close>: the own enumerable properties (an Error object has none).\<close>

fun entries :: "jsval \<Rightarrow> (string \<times> jsval) list" where
  "entries (VObject ps ms) = ps"
| "entries v = []"

fun string_of_nat :: "nat \<Rightarrow> string" where
  "string_of_nat n =
     (if n < 10 then [char_of (48 + n)]
      else string_of_nat (n div 10) @ [char_of (48 + n mod 10)])"

text \<open>The string conversion that \<^verbatim>\<open>new Error(x)\<close> applies to its argument.\<close>

fun ToString :: "jsval \<Rightarrow> string" where
  "ToString VUndefined = ''undefined''"
| "ToString VNull = ''null''"
| "ToString (VBool b) = (if b then ''true'' else ''false'')"
| "ToString (VNum n) = (if n < 0 then ''-'' @ string_of_nat (nat (- n)) else string_of_nat (nat n))"
| "ToString (VStr s) = s"
| "ToString (VObject ps ms) = ''[object Object]''"
| "ToString (VError m s ms) = (if m = [] then ''Error'' else ''Error: '' @ m)"

text \<open>
  \<^verbatim>\<open>new Error(x)\<close> followed by \<^verbatim>\<open>err.stack = s\<close> (lines 203-204): the message is
  empty when \<^verbatim>\<open>x\<close> is undefined and the string conversion of \<^verbatim>\<open>x\<close> otherwise.
\<close>

definition newError :: "jsval \<Rightarrow> jsval \<Rightarrow> jsval" where
  "newError x s = VError (if x = VUndefined then [] else ToString x) s []"

subsection \<open>Reflect metadata\<close>

fun ownMetadata :: "jsval \<Rightarrow> (string \<times> jsval) list" where
  "ownMetadata (VObject ps ms) = ms"
| "ownMetadata (VError m s ms) = ms"
| "ownMetadata v = []"

text \<open>\<^verbatim>\<open>Reflect.defineMetadata(key, value, obj)\<close> on an object.\<close>

fun Reflect_defineMetadata :: "string \<Rightarrow> jsval \<Rightarrow> jsval \<Rightarrow> jsval" where
  "Reflect_defineMetadata k v (VObject ps ms) = VObject ps (AList.update k v ms)"
| "Reflect_defineMetadata k v (VError m s ms) = VError m s (AList.update k v ms)"
| "Reflect_defineMetadata k v obj = obj"

text \<open>
  Lines 230-249. The first argument says whether the host's \<^verbatim>\<open>Reflect\<close> has the
  metadata functions (they come from the \<^verbatim>\<open>reflect-metadata\<close> polyfill). The metadata
  argument has the type \<^verbatim>\<open>Record<string, any> | null\<close>: a plain object or null.
\<close>

definition getMetadata :: "bool \<Rightarrow> jsval \<Rightarrow> jsval" where
  "getMetadata reflect obj =
     (if \<not> isObject obj then VNull
      else if \<not> reflect then VNull
      else VObject (foldl (\<lambda>prev curr. AList.update (fst curr) (snd curr) prev) []
                      (ownMetadata obj)) [])"

definition applyMetadata :: "bool \<Rightarrow> jsval \<Rightarrow> jsval \<Rightarrow> jsval" where
  "applyMetadata reflect obj metadata =
     (if \<not> isObject obj then obj
      else if metadata = VNull then obj
      else if \<not> reflect then obj
      else foldl (\<lambda>ob kv. Reflect_defineMetadata (fst kv) (snd kv) ob) obj (entries metadata))"

definition defineMetadata :: "bool \<Rightarrow> jsval \<Rightarrow> string \<Rightarrow> jsval \<Rightarrow> jsval" where
  "defineMetadata reflect obj k data =
     (if \<not> isObject obj then obj
      else if \<not> reflect then obj
      else Reflect_defineMetadata k data obj)"

section \<open>Messages, serializers and options\<close>

text \<open>
  The interfaces \<^verbatim>\<open>Request\<close> and \<^verbatim>\<open>Response\<close>, lines 214-226. An optional field is
  an option. The field \<^verbatim>\<open>error\<close> holds whatever line 179 puts there: an object with
  the message and the stack of an \<^verbatim>\<open>Error\<close>, or any other thrown value as it is. The
  fields \<^verbatim>\<open>callId\<close>, \<^verbatim>\<open>method\<close> and \<^verbatim>\<open>metadata\<close> of a response are \<open>rcallId\<close>, \<open>rmethod\<close>
  and \<open>rmetadata\<close> here.
\<close>

record request =
  "method" :: string
  args :: "jsval list"
  callId :: string
  metadata :: "jsval list option"

record response =
  return :: jsval
  rcallId :: string
  rmethod :: string
  error :: "jsval option"
  rmetadata :: "jsval option"

text \<open>
  \<^verbatim>\<open>Serialization\<close>, lines 8-11. Both functions are asynchronous: \<open>Inl e\<close> is a promise
  rejected with \<open>e\<close>, \<open>Inr x\<close> one fulfilled with \<open>x\<close>. The one untyped serializer of the
  source is used at two types, for requests and for responses.
\<close>

record ('m, 'p) Serialization =
  serialization :: "'m \<Rightarrow> jsval + 'p"
  deserialization :: "'p \<Rightarrow> jsval + 'm"

definition NoSerialization :: "('m, 'm) Serialization" where
  "NoSerialization = \<lparr>serialization = Inr, deserialization = Inr\<rparr>"

text \<open>
  \<^verbatim>\<open>JSONSerialization\<close>, lines 23-31. The host's \<^verbatim>\<open>JSON.stringify\<close> and \<^verbatim>\<open>JSON.parse\<close>,
  with the replacer given to them, are its parameters; where one of them throws, the
  promise of the function is rejected with what was thrown.
\<close>

definition JSONSerialization ::
  "('m \<Rightarrow> jsval + string) \<Rightarrow> (string \<Rightarrow> jsval + 'm) \<Rightarrow> ('m, string) Serialization" where
  "JSONSerialization stringify parse = \<lparr>serialization = stringify, deserialization = parse\<rparr>"

text \<open>What the promise of an implementation does: it is fulfilled, it is rejected (as when
  an \<^verbatim>\<open>async\<close> function throws), or it stays pending.\<close>

datatype outcome = Fulfils jsval | Rejects jsval | Never

text \<open>A payload on the channel \<^verbatim>\<open>${key}-call\<close> or on the channel \<^verbatim>\<open>${key}-return\<close>.\<close>

datatype ('a, 'b) packet = Call 'a | Return 'b

text \<open>The event names \<^verbatim>\<open>CALL\<close> and \<^verbatim>\<open>RESPONSE\<close> of lines 131-132.\<close>

definition event_name :: "string \<Rightarrow> ('a, 'b) packet \<Rightarrow> string" where
  "event_name k pkt = (case pkt of Call x \<Rightarrow> k @ ''-call'' | Return y \<Rightarrow> k @ ''-return'')"

text \<open>
  The constants of one \<^verbatim>\<open>AsyncCall\<close> closure: the implementation object, the options
  of lines 36-71, and the host. The implementation object is given by two tables of
  executors (an executor takes its \<^verbatim>\<open>this\<close> and its arguments):
  \<^item> \<open>implementation\<close>: its own properties, the methods that were put into it;
  \<^item> \<open>inherited\<close>: the properties that its prototype chain adds, which the own ones
    shadow. An object literal inherits the members of \<^verbatim>\<open>Object.prototype\<close>; an object
    made with \<^verbatim>\<open>Object.create(null)\<close> inherits nothing.

  The host:
  \<^item> \<open>transport\<close>: the packets that the message center hands to this side's own
    handlers synchronously, inside \<^verbatim>\<open>send\<close> (none for a transport that only queues);
  \<^item> \<open>rawMetadata\<close>: the result of \<^verbatim>\<open>getMetadata(_data)\<close> on a raw payload;
  \<^item> \<open>reflect\<close>: whether \<^verbatim>\<open>Reflect\<close> has the metadata functions;
  \<^item> \<open>stackTrace\<close>: the stack that the host gives to an error created with a message.
\<close>

record ('a, 'b) AsyncCall =
  implementation :: "string \<rightharpoonup> (jsval \<Rightarrow> jsval list \<Rightarrow> outcome)"
  inherited :: "string \<rightharpoonup> (jsval \<Rightarrow> jsval list \<Rightarrow> outcome)"
  key :: string
  serializerRequest :: "(request, 'a) Serialization"
  serializerResponse :: "(response, 'b) Serialization"
  dontThrowOnNotImplemented :: bool
  writeToConsole :: bool
  transport :: "('a, 'b) packet \<Rightarrow> ('a, 'b) packet list"
  rawMetadata :: "('a, 'b) packet \<Rightarrow> jsval"
  reflect :: bool
  stackTrace :: "string \<Rightarrow> jsval"

section \<open>The state of one instance\<close>

datatype promise = Pending | Resolved jsval | Rejected jsval

datatype console_line =
    ConsoleDebug string request
  | ConsoleLog string request outcome
  | ConsoleError jsval string jsval

text \<open>
  An asynchronous function runs until its next \<^verbatim>\<open>await\<close> and is resumed later, in a
  task of its own, with the result of the awaited promise. A suspended function is one
  of these continuations:
  \<^item> \<open>CallDeserialized\<close>: the call handler after line 137, with \<^verbatim>\<open>metadataOnRequest\<close>;
  \<^item> \<open>CallSettled\<close>: the call handler after line 165;
  \<^item> \<open>ResponseSerialized\<close>: the call handler after the \<^verbatim>\<open>await\<close> of line 174;
  \<^item> \<open>ErrorSerialized\<close>: the call handler after the \<^verbatim>\<open>await\<close> of line 177;
  \<^item> \<open>ResponseDeserialized\<close>: the response handler after line 188;
  \<^item> \<open>RequestSerialized\<close>: the \<^verbatim>\<open>then\<close> of line 265, with the call's id and promise.
\<close>

datatype ('a, 'b) task =
    CallDeserialized jsval "jsval + request"
  | CallSettled request outcome
  | ResponseSerialized request "jsval + 'b"
  | ErrorSerialized "jsval + 'b"
  | ResponseDeserialized jsval "jsval + response"
  | RequestSerialized string nat "jsval + 'a"

text \<open>
  \<open>registry\<close> is the \<^verbatim>\<open>map\<close> of line 134; a \<^verbatim>\<open>[resolve, reject]\<close> pair is the index
  of its promise in \<open>promises\<close>. \<open>sent\<close> is what \<^verbatim>\<open>message.send\<close> has been given,
  \<open>unhandled\<close> the rejections of the handlers' own promises, which nothing observes.
\<close>

record ('a, 'b) state =
  registry :: "string \<rightharpoonup> nat"
  promises :: "promise list"
  sent :: "('a, 'b) packet list"
  console :: "console_line list"
  unhandled :: "jsval list"
  suspended :: "('a, 'b) task list"

definition init :: "('a, 'b) state" where
  "init = \<lparr>registry = Map.empty, promises = [], sent = [], console = [], unhandled = [],
           suspended = []\<rparr>"

text \<open>\<^verbatim>\<open>resolve(v)\<close> and \<^verbatim>\<open>reject(e)\<close> of a promise: only a pending promise changes.\<close>

definition resolve :: "nat \<Rightarrow> jsval \<Rightarrow> ('a, 'b) state \<Rightarrow> ('a, 'b) state" where
  "resolve p v st =
     (if p < length (promises st) \<and> promises st ! p = Pending
      then st\<lparr>promises := (promises st)[p := Resolved v]\<rparr> else st)"

definition reject :: "nat \<Rightarrow> jsval \<Rightarrow> ('a, 'b) state \<Rightarrow> ('a, 'b) state" where
  "reject p e st =
     (if p < length (promises st) \<and> promises st ! p = Pending
      then st\<lparr>promises := (promises st)[p := Rejected e]\<rparr> else st)"

definition suspend :: "('a, 'b) task \<Rightarrow> ('a, 'b) state \<Rightarrow> ('a, 'b) state" where
  "suspend t st = st\<lparr>suspended := suspended st @ [t]\<rparr>"

definition uncaught :: "jsval \<Rightarrow> ('a, 'b) state \<Rightarrow> ('a, 'b) state" where
  "uncaught e st = st\<lparr>unhandled := unhandled st @ [e]\<rparr>"

definition console_write :: "console_line \<Rightarrow> ('a, 'b) state \<Rightarrow> ('a, 'b) state" where
  "console_write l st = st\<lparr>console := console st @ [l]\<rparr>"

section \<open>The handlers\<close>

text \<open>The synchronous start of the two handlers: lines 136-137 and 187-188.\<close>

definition on_call :: "('a, 'b) AsyncCall \<Rightarrow> 'a \<Rightarrow> ('a, 'b) state \<Rightarrow> ('a, 'b) state" where
  "on_call cfg data st =
     suspend (CallDeserialized (rawMetadata cfg (Call data))
                (deserialization (serializerRequest cfg) data)) st"

definition on_return :: "('a, 'b) AsyncCall \<Rightarrow> 'b \<Rightarrow> ('a, 'b) state \<Rightarrow> ('a, 'b) state" where
  "on_return cfg data st =
     suspend (ResponseDeserialized (rawMetadata cfg (Return data))
                (deserialization (serializerResponse cfg) data)) st"

fun deliver :: "('a, 'b) AsyncCall \<Rightarrow> ('a, 'b) packet \<Rightarrow> ('a, 'b) state \<Rightarrow> ('a, 'b) state" where
  "deliver cfg (Call data) st = on_call cfg data st"
| "deliver cfg (Return data) st = on_return cfg data st"

text \<open>\<^verbatim>\<open>message.send\<close>: the packet is handed to the transport, which may call this
  side's handlers before it returns.\<close>

definition message_send :: "('a, 'b) AsyncCall \<Rightarrow> ('a, 'b) packet \<Rightarrow> ('a, 'b) state \<Rightarrow> ('a, 'b) state" where
  "message_send cfg pkt st =
     foldl (\<lambda>s d. deliver cfg d s) (st\<lparr>sent := sent st @ [pkt]\<rparr>) (transport cfg pkt)"

text \<open>Line 150: \<^verbatim>\<open>data.metadata.forEach((meta, index) => applyMetadata(args[index], meta))\<close>.
  An index beyond the arguments reads undefined, which \<^verbatim>\<open>applyMetadata\<close> leaves alone.\<close>

definition applyEach :: "bool \<Rightarrow> jsval list \<Rightarrow> jsval list \<Rightarrow> jsval list" where
  "applyEach r metas as =
     map (\<lambda>i. if i < length metas then applyMetadata r (as ! i) (metas ! i) else as ! i)
       [0 ..< length as]"

text \<open>The \<^verbatim>\<open>catch\<close> block, lines 175-184, up to its \<^verbatim>\<open>await\<close>. With \<^verbatim>\<open>writeToConsole\<close>,
  line 176 reads \<^verbatim>\<open>err.message\<close>, which throws when \<^verbatim>\<open>err\<close> is null or undefined.\<close>

definition typeError :: "('a, 'b) AsyncCall \<Rightarrow> jsval" where
  "typeError cfg = VError ''TypeError'' (stackTrace cfg ''TypeError'') []"

definition catch_block :: "('a, 'b) AsyncCall \<Rightarrow> request \<Rightarrow> jsval \<Rightarrow> ('a, 'b) state \<Rightarrow> ('a, 'b) state" where
  "catch_block cfg data err st =
     (if writeToConsole cfg \<and> nullish err then uncaught (typeError cfg) st
      else
        let st1 = (if writeToConsole cfg
                   then console_write (ConsoleError (get_prop err ''message'') (callId data)
                                         (get_prop err ''stack'')) st
                   else st);
            resp = \<lparr>return = VUndefined, rcallId = callId data, rmethod = method data,
                    error = Some (if instanceofError err
                                  then VObject [(''message'', get_prop err ''message''),
                                                (''stack'', get_prop err ''stack'')] []
                                  else err),
                    rmetadata = None\<rparr>
        in suspend (ErrorSerialized (serialization (serializerResponse cfg) resp)) st1)"

text \<open>
  Line 139: the property read \<^verbatim>\<open>implementation[data.method]\<close>. A property read takes
  the object's own property and, when there is none, follows the prototype chain; it
  gives undefined (\<open>None\<close>) only when neither has the name.
\<close>

definition implementation_read ::
  "('a, 'b) AsyncCall \<Rightarrow> string \<Rightarrow> (jsval \<Rightarrow> jsval list \<Rightarrow> outcome) option" where
  "implementation_read cfg name =
     (case implementation cfg name of
        Some executor \<Rightarrow> Some executor
      | None \<Rightarrow> inherited cfg name)"

text \<open>Lines 138-165: the \<^verbatim>\<open>try\<close> block up to \<^verbatim>\<open>await promise\<close>.\<close>

definition notImplemented :: "('a, 'b) AsyncCall \<Rightarrow> string \<Rightarrow> jsval" where
  "notImplemented cfg m =
     VError (''Remote-call: '' @ m @ ''() not implemented!'')
       (stackTrace cfg (''Remote-call: '' @ m @ ''() not implemented!'')) []"

definition call_execute :: "('a, 'b) AsyncCall \<Rightarrow> jsval \<Rightarrow> request \<Rightarrow> ('a, 'b) state \<Rightarrow> ('a, 'b) state" where
  "call_execute cfg metadataOnRequest data st =
     (case implementation_read cfg (method data) of
        None \<Rightarrow>
          if dontThrowOnNotImplemented cfg
          then console_write (ConsoleDebug (key cfg) data) st
          else catch_block cfg data (notImplemented cfg (method data)) st
      | Some executor \<Rightarrow>
          let as = (case metadata data of
                      None \<Rightarrow> args data
                    | Some metas \<Rightarrow> applyEach (reflect cfg) metas (args data));
              pr = (if truthy metadataOnRequest
                    then executor (applyMetadata (reflect cfg) (VObject [] []) metadataOnRequest) as
                    else executor VUndefined as);
              st1 = (if writeToConsole cfg
                     then console_write (ConsoleLog (key cfg) (data\<lparr>args := as\<rparr>) pr) st
                     else st)
          in (case pr of Never \<Rightarrow> st1 | _ \<Rightarrow> suspend (CallSettled data pr) st1))"

text \<open>Lines 166-174: the response to a call that succeeded, up to the \<^verbatim>\<open>await\<close>.\<close>

definition call_respond :: "('a, 'b) AsyncCall \<Rightarrow> request \<Rightarrow> jsval \<Rightarrow> ('a, 'b) state \<Rightarrow> ('a, 'b) state" where
  "call_respond cfg data result st =
     (let m = getMetadata (reflect cfg) result;
          resp = \<lparr>return = result, rcallId = callId data, rmethod = method data,
                  error = None, rmetadata = (if m = VNull then None else Some m)\<rparr>
      in suspend (ResponseSerialized data (serialization (serializerResponse cfg) resp)) st)"

text \<open>Lines 189-212: the response handler after its \<^verbatim>\<open>await\<close>.\<close>

definition apply_response :: "('a, 'b) AsyncCall \<Rightarrow> response \<Rightarrow> jsval \<Rightarrow> jsval \<Rightarrow> jsval" where
  "apply_response cfg data metadataOnResponse obj =
     applyMetadata (reflect cfg) obj
       (defineMetadata (reflect cfg)
          (applyMetadata (reflect cfg) (VObject [] [])
             (case rmetadata data of
                None \<Rightarrow> VNull
              | Some m \<Rightarrow> if truthy m then m else VNull))
          ''async-call-response''
          (applyMetadata (reflect cfg) (VObject [] []) metadataOnResponse))"

definition data_error :: "response \<Rightarrow> jsval" where
  "data_error data = (case error data of None \<Rightarrow> VUndefined | Some e \<Rightarrow> e)"

definition response_settle :: "('a, 'b) AsyncCall \<Rightarrow> jsval \<Rightarrow> response \<Rightarrow> ('a, 'b) state \<Rightarrow> ('a, 'b) state" where
  "response_settle cfg metadataOnResponse data st =
     (case registry st (rcallId data) of
        None \<Rightarrow> st
      | Some p \<Rightarrow>
          let st1 = st\<lparr>registry := (registry st)(rcallId data := None)\<rparr> in
          if truthy (data_error data)
          then
            let err = apply_response cfg data metadataOnResponse
                        (newError (get_prop (data_error data) ''message'')
                           (get_prop (data_error data) ''stack''));
                st2 = reject p err st1
            in if writeToConsole cfg
               then console_write (ConsoleError (get_prop (data_error data) ''message'')
                                     (rcallId data) (get_prop (data_error data) ''stack'')) st2
               else st2
          else resolve p (apply_response cfg data metadataOnResponse (return data)) st1)"

text \<open>One resumed continuation, run to its next \<^verbatim>\<open>await\<close> or to its end.\<close>

fun run_task :: "('a, 'b) AsyncCall \<Rightarrow> ('a, 'b) task \<Rightarrow> ('a, 'b) state \<Rightarrow> ('a, 'b) state" where
  "run_task cfg (CallDeserialized m (Inl e)) st = uncaught e st"
| "run_task cfg (CallDeserialized m (Inr data)) st = call_execute cfg m data st"
| "run_task cfg (CallSettled data (Fulfils result)) st = call_respond cfg data result st"
| "run_task cfg (CallSettled data (Rejects err)) st = catch_block cfg data err st"
| "run_task cfg (CallSettled data Never) st = st"
| "run_task cfg (ResponseSerialized data (Inl err)) st = catch_block cfg data err st"
| "run_task cfg (ResponseSerialized data (Inr payload)) st = message_send cfg (Return payload) st"
| "run_task cfg (ErrorSerialized (Inl err)) st = uncaught err st"
| "run_task cfg (ErrorSerialized (Inr payload)) st = message_send cfg (Return payload) st"
| "run_task cfg (ResponseDeserialized m (Inl e)) st = uncaught e st"
| "run_task cfg (ResponseDeserialized m (Inr data)) st = response_settle cfg m data st"
| "run_task cfg (RequestSerialized i p (Inl e)) st = reject p e st"
| "run_task cfg (RequestSerialized i p (Inr data)) st =
     (let st1 = message_send cfg (Call data) st
      in st1\<lparr>registry := (registry st1)(i \<mapsto> p)\<rparr>)"

section \<open>The remote surface\<close>

text \<open>The key of a property read on the proxy.\<close>

datatype property_key = StringKey string | SymbolKey string

text \<open>Lines 261-264: the request of an outgoing call.\<close>

definition make_request :: "bool \<Rightarrow> string \<Rightarrow> jsval list \<Rightarrow> string \<Rightarrow> request" where
  "make_request r m as i =
     (let md = map (getMetadata r) as;
          req = \<lparr>method = m, args = as, callId = i, metadata = Some md\<rparr>;
          metadataUsed = list_ex (\<lambda>x. x \<noteq> VNull) as
      in if \<not> metadataUsed then req\<lparr>metadata := None\<rparr> else req)"

text \<open>
  Lines 254-269: a call of \<^verbatim>\<open>proxy[method](...args)\<close>, where \<open>i\<close> is the string that
  \<^verbatim>\<open>Math.random().toString(36).slice(2)\<close> gave. The result is the new promise and the
  state at the end of the promise's executor.
\<close>

definition remote_call ::
  "('a, 'b) AsyncCall \<Rightarrow> property_key \<Rightarrow> jsval list \<Rightarrow> string \<Rightarrow> ('a, 'b) state \<Rightarrow> nat \<times> ('a, 'b) state" where
  "remote_call cfg k as i st =
     (let p = length (promises st);
          st0 = st\<lparr>promises := promises st @ [Pending]\<rparr>
      in case k of
           SymbolKey s \<Rightarrow> (p, reject p (VStr ''Only string can be keys'') st0)
         | StringKey m \<Rightarrow>
             (p, suspend (RequestSerialized i p
                            (serialization (serializerRequest cfg)
                               (make_request (reflect cfg) m as i))) st0))"

section \<open>Scheduling\<close>

text \<open>Resuming the \<open>n\<close>-th suspended continuation; \<open>tick\<close> resumes the oldest one.\<close>

definition resume :: "('a, 'b) AsyncCall \<Rightarrow> nat \<Rightarrow> ('a, 'b) state \<Rightarrow> ('a, 'b) state" where
  "resume cfg n st =
     (if n < length (suspended st)
      then run_task cfg (suspended st ! n)
             (st\<lparr>suspended := take n (suspended st) @ drop (Suc n) (suspended st)\<rparr>)
      else st)"

definition tick :: "('a, 'b) AsyncCall \<Rightarrow> ('a, 'b) state \<Rightarrow> ('a, 'b) state" where
  "tick cfg st = resume cfg 0 st"

fun ticks :: "('a, 'b) AsyncCall \<Rightarrow> nat \<Rightarrow> ('a, 'b) state \<Rightarrow> ('a, 'b) state" where
  "ticks cfg 0 st = st"
| "ticks cfg (Suc n) st = ticks cfg n (tick cfg st)"

section \<open>Example instances\<close>

text \<open>
  \<^verbatim>\<open>Object.prototype.toString\<close>, which every object literal inherits: the string
  \<^verbatim>\<open>[object Tag]\<close>, where the tag is that of \<^verbatim>\<open>this\<close>. Awaiting the string gives the
  string, so as an executor it fulfils with it.
\<close>

fun class_tag :: "jsval \<Rightarrow> string" where
  "class_tag VUndefined = ''Undefined''"
| "class_tag VNull = ''Null''"
| "class_tag (VBool b) = ''Boolean''"
| "class_tag (VNum n) = ''Number''"
| "class_tag (VStr s) = ''String''"
| "class_tag (VObject ps ms) = ''Object''"
| "class_tag (VError m s ms) = ''Error''"

definition Object_prototype_toString :: "jsval \<Rightarrow> jsval list \<Rightarrow> outcome" where
  "Object_prototype_toString this as = Fulfils (VStr (''[object '' @ class_tag this @ '']''))"

text \<open>
  \<^verbatim>\<open>Object.prototype\<close>, from which an object literal inherits. Of its members the
  embedding has \<^verbatim>\<open>toString\<close> only: the others (\<^verbatim>\<open>valueOf\<close>, \<^verbatim>\<open>constructor\<close> and so
  on) throw errors whose text the engine chooses, or give values that are not among the
  values of the embedding. The read of such a name finds nothing here, which is not what
  the code sees, so no statement below is about a call of one of them.
\<close>

definition Object_prototype :: "string \<rightharpoonup> (jsval \<Rightarrow> jsval list \<Rightarrow> outcome)" where
  "Object_prototype = [''toString'' \<mapsto> Object_prototype_toString]"

text \<open>
  An instance with the defaults of lines 122-129 for the key and for \<^verbatim>\<open>writeToConsole\<close>,
  over a transport that only queues and a host without the metadata functions. Its
  implementation is an object literal with the own properties \<open>impl\<close>, which inherits
  from \<^verbatim>\<open>Object.prototype\<close>.
\<close>

definition instance_of ::
  "(string \<rightharpoonup> (jsval \<Rightarrow> jsval list \<Rightarrow> outcome)) \<Rightarrow> (request, 'a) Serialization \<Rightarrow>
   (response, 'b) Serialization \<Rightarrow> bool \<Rightarrow> ('a, 'b) AsyncCall" where
  "instance_of impl sq sr lenient =
     \<lparr>implementation = impl, inherited = Object_prototype, key = ''default'', serializerRequest = sq,
      serializerResponse = sr, dontThrowOnNotImplemented = lenient, writeToConsole = True,
      transport = (\<lambda>pkt. []), rawMetadata = (\<lambda>pkt. VNull), reflect = False,
      stackTrace = (\<lambda>m. VStr (''Error: '' @ m))\<rparr>"

text \<open>All the defaults: no serialization, unimplemented calls dropped.\<close>

definition defaults :: "(string \<rightharpoonup> (jsval \<Rightarrow> jsval list \<Rightarrow> outcome)) \<Rightarrow> (request, response) AsyncCall" where
  "defaults impl = instance_of impl NoSerialization NoSerialization True"

text \<open>A serializer whose two functions reject with \<open>e\<close>, as \<^verbatim>\<open>JSON.parse\<close> does on a
  text that is not JSON.\<close>

definition Rejecting :: "jsval \<Rightarrow> ('m, 'p) Serialization" where
  "Rejecting e = \<lparr>serialization = (\<lambda>x. Inl e), deserialization = (\<lambda>x. Inl e)\<rparr>"

text \<open>The own properties of the implementation \<^verbatim>\<open>{ echo, fail }\<close>: \<^verbatim>\<open>echo\<close> returns its
  first argument, and \<^verbatim>\<open>fail\<close> throws an error with the message \<^verbatim>\<open>boom\<close>.\<close>

definition echo :: "jsval \<Rightarrow> jsval list \<Rightarrow> outcome" where
  "echo this as = Fulfils (case as of [] \<Rightarrow> VUndefined | a # _ \<Rightarrow> a)"

definition fail :: "jsval \<Rightarrow> jsval list \<Rightarrow> outcome" where
  "fail this as = Rejects (VError ''boom'' (VStr ''Error: boom at fail'') [])"

definition server :: "string \<rightharpoonup> (jsval \<Rightarrow> jsval list \<Rightarrow> outcome)" where
  "server = [''echo'' \<mapsto> echo, ''fail'' \<mapsto> fail]"


text \<open>The instances of the examples: two sides with the defaults, one of which
  implements nothing (\<^verbatim>\<open>AsyncCall({})\<close>) and one \<^verbatim>\<open>echo\<close> and \<^verbatim>\<open>fail\<close>
  (\<^verbatim>\<open>AsyncCall({ echo, fail })\<close>); a strict side; a side whose serializer rejects every
  payload; a side on the answering transport; a side whose \<^verbatim>\<open>fail\<close> throws the number
  0.\<close>

definition client :: "(request, response) AsyncCall" where
  "client = defaults Map.empty"

definition lenient_server :: "(request, response) AsyncCall" where
  "lenient_server = defaults server"

definition strict_server :: "(request, response) AsyncCall" where
  "strict_server = instance_of server NoSerialization NoSerialization False"

definition broken :: "(string, string) AsyncCall" where
  "broken = instance_of server (Rejecting (VStr ''Unexpected token''))
              (Rejecting (VStr ''Unexpected token'')) True"


definition zero_server :: "(request, response) AsyncCall" where
  "zero_server = defaults [''fail'' \<mapsto> (\<lambda>this as. Rejects (VNum 0))]"

section \<open>Two sides\<close>

text \<open>What the response handler does to the promise it finds: lines 202-212.\<close>

definition settlement :: "response \<Rightarrow> promise" where
  "settlement data =
     (if truthy (data_error data)
      then Rejected (newError (get_prop (data_error data) ''message'')
                       (get_prop (data_error data) ''stack''))
      else Resolved (return data))"

text \<open>The message \<open>x\<close>, serialized by \<open>S\<close> and deserialized by \<open>T\<close>, is \<open>x\<close> again.\<close>

definition lossless :: "('m, 'p) Serialization \<Rightarrow> ('m, 'p) Serialization \<Rightarrow> 'm \<Rightarrow> bool" where
  "lossless S T x =
     (case serialization S x of Inl e \<Rightarrow> False | Inr y \<Rightarrow> deserialization T y = Inr x)"

text \<open>
  One call from side \<open>A\<close> to side \<open>B\<close>, both new, over a transport that carries what one
  side has sent to the other side: \<open>A\<close> makes the call and resumes \<open>n\<close> continuations;
  \<open>B\<close> receives what \<open>A\<close> has sent and resumes \<open>n\<close> continuations; \<open>A\<close> receives what
  \<open>B\<close> has sent and resumes \<open>n\<close> continuations. The result is the promise of the call
  and the final states of \<open>A\<close> and \<open>B\<close>.
\<close>

definition round_trip ::
  "('a, 'b) AsyncCall \<Rightarrow> ('a, 'b) AsyncCall \<Rightarrow> string \<Rightarrow> jsval list \<Rightarrow> string \<Rightarrow> nat \<Rightarrow>
   promise \<times> ('a, 'b) state \<times> ('a, 'b) state" where
  "round_trip A B m as i n =
     (let (p, a1) = remote_call A (StringKey m) as i init;
          a2 = ticks A n a1;
          b2 = ticks B n (foldl (\<lambda>s d. deliver B d s) init (sent a2));
          a4 = ticks A n (foldl (\<lambda>s d. deliver A d s) a2 (sent b2))
      in (promises a4 ! p, a4, b2))"

section \<open>Runs of one instance\<close>

text \<open>The calls whose request is still being serialized: the id and the promise of
  every suspended \<open>RequestSerialized\<close>.\<close>

fun task_call :: "('a, 'b) task \<Rightarrow> (string \<times> nat) list" where
  "task_call (RequestSerialized i p r) = [(i, p)]"
| "task_call t = []"

definition serializing :: "('a, 'b) state \<Rightarrow> (string \<times> nat) list" where
  "serializing st = concat (map task_call (suspended st))"

text \<open>
  What \<^verbatim>\<open>Math.random().toString(36).slice(2)\<close> may give. The code accepts the string
  as it comes, which is \<open>anything\<close>; \<open>unused\<close> is the generator that never gives an id
  that is in the registry or on its way into it.
\<close>

definition anything :: "('a, 'b) state \<Rightarrow> string \<Rightarrow> bool" where
  "anything st i \<longleftrightarrow> True"

definition unused :: "('a, 'b) state \<Rightarrow> string \<Rightarrow> bool" where
  "unused st i \<longleftrightarrow> registry st i = None \<and> i \<notin> fst ` set (serializing st)"

text \<open>
  The states that one instance reaches, with the calls made so far (the id and the
  promise of each call with a string key, in the order of the calls). A step is a call
  on the proxy, a payload that the transport hands to a handler, or the resumption of
  any suspended continuation: awaited promises may settle in any order.
\<close>

inductive run ::
  "('a, 'b) AsyncCall \<Rightarrow> (('a, 'b) state \<Rightarrow> string \<Rightarrow> bool) \<Rightarrow> (string \<times> nat) list \<Rightarrow>
   ('a, 'b) state \<Rightarrow> bool"
  for cfg :: "('a, 'b) AsyncCall" and gen :: "('a, 'b) state \<Rightarrow> string \<Rightarrow> bool" where
  start: "run cfg gen [] init"
| call: "run cfg gen cs st \<Longrightarrow> gen st i \<Longrightarrow> remote_call cfg (StringKey m) as i st = (p, st') \<Longrightarrow>
         run cfg gen (cs @ [(i, p)]) st'"
| bad_call: "run cfg gen cs st \<Longrightarrow> remote_call cfg (SymbolKey s) as i st = (p, st') \<Longrightarrow>
         run cfg gen cs st'"
| receive: "run cfg gen cs st \<Longrightarrow> run cfg gen cs (deliver cfg pkt st)"
| resume: "run cfg gen cs st \<Longrightarrow> n < length (suspended st) \<Longrightarrow> run cfg gen cs (resume cfg n st)"

text \<open>The outstanding calls: those whose request has been sent and whose promise is
  still pending.\<close>

definition outstanding :: "(string \<times> nat) list \<Rightarrow> ('a, 'b) state \<Rightarrow> (string \<times> nat) list" where
  "outstanding cs st =
     filter (\<lambda>c. snd c < length (promises st) \<and> promises st ! snd c = Pending \<and>
                 c \<notin> set (serializing st)) cs"

text \<open>A payload on the return channel, handled to the end of its handler; a list of
  them, one after the other; and whether a payload is a response to the call \<open>c\<close>.\<close>

definition receive_response :: "('a, 'b) AsyncCall \<Rightarrow> 'b \<Rightarrow> ('a, 'b) state \<Rightarrow> ('a, 'b) state" where
  "receive_response cfg y st = resume cfg (length (suspended st)) (on_return cfg y st)"

fun receive_responses :: "('a, 'b) AsyncCall \<Rightarrow> 'b list \<Rightarrow> ('a, 'b) state \<Rightarrow> ('a, 'b) state" where
  "receive_responses cfg [] st = st"
| "receive_responses cfg (y # ys) st = receive_responses cfg ys (receive_response cfg y st)"

definition answers :: "('a, 'b) AsyncCall \<Rightarrow> string \<Rightarrow> 'b \<Rightarrow> bool" where
  "answers cfg c y =
     (case deserialization (serializerResponse cfg) y of
        Inl e \<Rightarrow> False
      | Inr r \<Rightarrow> rcallId r = c)"

subsection \<open>Steps of a run\<close>

text \<open>
  What happens to one instance, one event after the other: a call on the proxy with the
  string that the generator gives it, a payload that the transport hands to a handler,
  the resumption of the \<open>n\<close>-th suspended continuation.
\<close>

datatype ('a, 'b) event =
    Invoke property_key "jsval list" string
  | Deliver "('a, 'b) packet"
  | Resume nat

fun step :: "('a, 'b) AsyncCall \<Rightarrow> ('a, 'b) event \<Rightarrow> ('a, 'b) state \<Rightarrow> ('a, 'b) state" where
  "step cfg (Invoke k as i) st = snd (remote_call cfg k as i st)"
| "step cfg (Deliver pkt) st = deliver cfg pkt st"
| "step cfg (Resume n) st = resume cfg n st"

fun steps :: "('a, 'b) AsyncCall \<Rightarrow> ('a, 'b) event list \<Rightarrow> ('a, 'b) state \<Rightarrow> ('a, 'b) state" where
  "steps cfg [] st = st"
| "steps cfg (ev # evs) st = steps cfg evs (step cfg ev st)"

text \<open>Whether an event is a call that gets the id \<open>c\<close>. A call with a symbol key
  returns at line 256, before an id is made.\<close>

fun draws :: "string \<Rightarrow> ('a, 'b) event \<Rightarrow> bool" where
  "draws c (Invoke (StringKey m) as i) = (i = c)"
| "draws c ev = False"

text \<open>Whether an event hands a response to the call \<open>c\<close> to the response handler.\<close>

fun delivers :: "('a, 'b) AsyncCall \<Rightarrow> string \<Rightarrow> ('a, 'b) event \<Rightarrow> bool" where
  "delivers cfg c (Deliver (Return y)) = answers cfg c y"
| "delivers cfg c ev = False"

text \<open>
  The response handler awaits the deserialization (line 188) before it looks the id up
  (line 189). \<open>held c t\<close> is the response to the call \<open>c\<close> with which the suspended
  handler \<open>t\<close> will go on, \<open>waiting c st\<close> are the responses to \<open>c\<close> of all suspended
  handlers, and \<open>handles c ev st\<close> is the response to \<open>c\<close> whose handler the event \<open>ev\<close>
  resumes in the state \<open>st\<close>: this is when the response is looked up. The responses to
  \<open>c\<close> that a list of events handles, in the order in which they are handled, are
  \<open>responses_handled\<close>.
\<close>

fun held :: "string \<Rightarrow> ('a, 'b) task \<Rightarrow> response option" where
  "held c (ResponseDeserialized m (Inr r)) = (if rcallId r = c then Some r else None)"
| "held c t = None"

definition waiting :: "string \<Rightarrow> ('a, 'b) state \<Rightarrow> response list" where
  "waiting c st = List.map_filter (held c) (suspended st)"

definition handles :: "string \<Rightarrow> ('a, 'b) event \<Rightarrow> ('a, 'b) state \<Rightarrow> response option" where
  "handles c ev st =
     (case ev of
        Resume n \<Rightarrow> if n < length (suspended st) then held c (suspended st ! n) else None
      | _ \<Rightarrow> None)"

fun responses_handled ::
  "('a, 'b) AsyncCall \<Rightarrow> string \<Rightarrow> ('a, 'b) event list \<Rightarrow> ('a, 'b) state \<Rightarrow> response list" where
  "responses_handled cfg c [] st = []"
| "responses_handled cfg c (ev # evs) st =
     (case handles c ev st of None \<Rightarrow> [] | Some r \<Rightarrow> [r]) @
     responses_handled cfg c evs (step cfg ev st)"

subsection \<open>The result that a response carries\<close>



subsection \<open>Invariants of the runs\<close>

text \<open>\<^verbatim>\<open>resolve\<close> or \<^verbatim>\<open>reject\<close> on the list of promises.\<close>

definition settle_at :: "nat \<Rightarrow> promise \<Rightarrow> promise list \<Rightarrow> promise list" where
  "settle_at p s prs = (if p < length prs \<and> prs ! p = Pending then prs[p := s] else prs)"

text \<open>
  \<open>tracked\<close> holds in every run: each call has a promise of its own; a call that is
  being serialized, or is registered, is a call that was made, and its promise is
  pending; a promise that is being serialized is not registered. \<open>collision_free\<close> holds
  in the runs of the generator \<open>unused\<close>: a call whose promise is pending is registered
  under its id or is being serialized, and the ids being serialized differ from each
  other and from the registered ones.
\<close>

definition tracked ::
  "(string \<times> nat) list \<Rightarrow> (string \<rightharpoonup> nat) \<Rightarrow> promise list \<Rightarrow> (string \<times> nat) list \<Rightarrow> bool" where
  "tracked cs reg prs ser \<longleftrightarrow>
     (\<forall>i p. (i, p) \<in> set cs \<longrightarrow> p < length prs) \<and>
     distinct (map snd cs) \<and> distinct (map snd ser) \<and>
     (\<forall>i p. (i, p) \<in> set ser \<longrightarrow>
        (i, p) \<in> set cs \<and> p < length prs \<and> prs ! p = Pending \<and> (\<forall>j. reg j \<noteq> Some p)) \<and>
     (\<forall>i p. reg i = Some p \<longrightarrow> (i, p) \<in> set cs \<and> p < length prs \<and> prs ! p = Pending)"

definition collision_free ::
  "(string \<times> nat) list \<Rightarrow> (string \<rightharpoonup> nat) \<Rightarrow> promise list \<Rightarrow> (string \<times> nat) list \<Rightarrow> bool" where
  "collision_free cs reg prs ser \<longleftrightarrow>
     (\<forall>i p. (i, p) \<in> set cs \<longrightarrow> prs ! p = Pending \<longrightarrow> reg i = Some p \<or> (i, p) \<in> set ser) \<and>
     distinct (map fst ser) \<and> (\<forall>i p. (i, p) \<in> set ser \<longrightarrow> reg i = None)"

text \<open>A step that leaves the registry, the promises and the calls being serialized alone.\<close>

definition quiet_step :: "('a, 'b) state \<Rightarrow> ('a, 'b) state \<Rightarrow> bool" where
  "quiet_step st st' \<longleftrightarrow>
     registry st' = registry st \<and> promises st' = promises st \<and> serializing st' = serializing st"

section \<open>Basic facts\<close>

lemma entries_Reflect_defineMetadata [simp]: "entries (Reflect_defineMetadata k v ob) = entries ob"
  by (cases ob) simp_all

lemma entries_foldl_define [simp]:
  "entries (foldl (\<lambda>ob kv. Reflect_defineMetadata (fst kv) (snd kv) ob) ob xs) = entries ob"
  by (induction xs arbitrary: ob) simp_all

lemma entries_applyMetadata [simp]: "entries (applyMetadata r ob m) = entries ob"
  by (simp add: applyMetadata_def)

lemma entries_defineMetadata [simp]: "entries (defineMetadata r ob k d) = entries ob"
  by (simp add: defineMetadata_def)

lemma applyMetadata_no_entries: "entries m = [] \<Longrightarrow> applyMetadata r ob m = ob"
  by (simp add: applyMetadata_def)

text \<open>
  The object that line 192 builds keeps its annotations in \<^verbatim>\<open>Reflect\<close>'s store and has
  no property of its own, so \<^verbatim>\<open>Object.entries\<close> of it is empty and \<^verbatim>\<open>apply\<close> returns
  its argument as it got it.
\<close>

lemma apply_response_id [simp]: "apply_response cfg data m obj = obj"
  unfolding apply_response_def by (rule applyMetadata_no_entries) simp

lemma suspended_same: "suspended st = ts \<Longrightarrow> st\<lparr>suspended := ts\<rparr> = st"
  by (cases st) simp

lemma tick_quiet: "suspended st = [] \<Longrightarrow> tick cfg st = st"
  by (simp add: tick_def resume_def)

lemma ticks_quiet: "suspended st = [] \<Longrightarrow> ticks cfg n st = st"
  by (induction n) (simp_all add: tick_quiet)

lemma tick_Cons: "suspended st = t # ts \<Longrightarrow> tick cfg st = run_task cfg t (st\<lparr>suspended := ts\<rparr>)"
  by (simp add: tick_def resume_def)

lemma message_send_quiet:
  "transport cfg pkt = [] \<Longrightarrow> message_send cfg pkt st = st\<lparr>sent := sent st @ [pkt]\<rparr>"
  by (simp add: message_send_def)

lemma tick_on_return:
  "suspended st = [] \<Longrightarrow> deserialization (serializerResponse A) y = Inr resp \<Longrightarrow>
   tick A (on_return A y st) = response_settle A (rawMetadata A (Return y)) resp st"
  by (simp add: on_return_def suspend_def tick_def resume_def suspended_same)

lemma tick_on_call:
  "suspended st = [] \<Longrightarrow> deserialization (serializerRequest B) x = Inr req \<Longrightarrow>
   tick B (on_call B x st) = call_execute B (rawMetadata B (Call x)) req st"
  by (simp add: on_call_def suspend_def tick_def resume_def suspended_same)

lemma method_make_request [simp]: "method (make_request r m as i) = m"
  and callId_make_request [simp]: "callId (make_request r m as i) = i"
  and args_make_request [simp]: "args (make_request r m as i) = as"
  by (simp_all add: make_request_def Let_def)

lemma losslessD:
  "lossless S T x \<Longrightarrow> \<exists>y. serialization S x = Inr y \<and> deserialization T y = Inr x"
  by (auto simp add: lossless_def split: sum.splits)

lemma lossless_NoSerialization [simp]: "lossless NoSerialization NoSerialization x"
  by (simp add: lossless_def NoSerialization_def)

text \<open>The response handler on a response whose \<^verbatim>\<open>callId\<close> is registered.\<close>

lemma response_settle_pending:
  assumes "registry st (rcallId data) = Some p" "p < length (promises st)" "promises st ! p = Pending"
  shows "promises (response_settle cfg m data st) = (promises st)[p := settlement data]"
    and "registry (response_settle cfg m data st) = (registry st)(rcallId data := None)"
    and "sent (response_settle cfg m data st) = sent st"
    and "suspended (response_settle cfg m data st) = suspended st"
  using assms
  by (simp_all add: response_settle_def settlement_def Let_def reject_def resolve_def console_write_def)

section \<open>The request of an outgoing call\<close>

lemma make_request_metadata:
  "(metadata (make_request r m as i) \<noteq> None) = (\<exists>x\<in>set as. x \<noteq> VNull)"
  by (auto simp add: make_request_def Let_def list_ex_iff)

text \<open>
  C5. The request should carry the metadata field only when some argument has captured
  metadata that is not null. Line 263 tests the arguments, not the captured metadata:
  for \<^verbatim>\<open>remote.echo("x")\<close> the only captured metadata is null, and the request still
  carries the field, holding that one null.
\<close>

theorem make_request_keeps_null_metadata:
  "map (getMetadata r) [VStr ''x''] = [VNull] \<and>
   metadata (make_request r ''echo'' [VStr ''x''] i) = Some [VNull]"
  by (simp add: make_request_def getMetadata_def)

section \<open>Failures of the serializer\<close>

text \<open>
  C6. When the serialization of the request rejects with \<open>e\<close>, the caller's promise is
  rejected with \<open>e\<close>, nothing is sent, and the registry is left as it was, both when the
  call is made (state \<open>st1\<close>) and when the rejection has been handled (state \<open>st2\<close>),
  after which nothing of the call is left suspended.
\<close>

theorem serialization_failure_rejects_call:
  assumes "serialization (serializerRequest cfg) (make_request (reflect cfg) m as i) = Inl e"
    and "remote_call cfg (StringKey m) as i st = (p, st1)"
    and "st2 = resume cfg (length (suspended st)) st1"
  shows "promises st1 ! p = Pending \<and> registry st1 = registry st \<and> sent st1 = sent st \<and>
         promises st2 ! p = Rejected e \<and> promises st2 = promises st @ [Rejected e] \<and>
         registry st2 = registry st \<and> sent st2 = sent st \<and> suspended st2 = suspended st"
  using assms by (auto simp add: remote_call_def Let_def suspend_def resume_def reject_def)

theorem serialization_failure_rejects_call_witness:
  "promises (tick (instance_of server (Rejecting (VStr ''cyclic'')) NoSerialization True)
              (snd (remote_call (instance_of server (Rejecting (VStr ''cyclic'')) NoSerialization True)
                      (StringKey ''echo'') [VStr ''x''] ''a'' (init :: (unit, response) state)))) ! 0
     = Rejected (VStr ''cyclic'')"
  using serialization_failure_rejects_call
    [of "instance_of server (Rejecting (VStr ''cyclic'')) NoSerialization True"
        "''echo''" "[VStr ''x'']" "''a''" "VStr ''cyclic''" "init :: (unit, response) state" 0
        "snd (remote_call (instance_of server (Rejecting (VStr ''cyclic'')) NoSerialization True)
                (StringKey ''echo'') [VStr ''x''] ''a'' init)"
        "tick (instance_of server (Rejecting (VStr ''cyclic'')) NoSerialization True)
           (snd (remote_call (instance_of server (Rejecting (VStr ''cyclic'')) NoSerialization True)
                   (StringKey ''echo'') [VStr ''x''] ''a'' init))"]
  by (simp add: instance_of_def Rejecting_def remote_call_def init_def suspend_def tick_def)

section \<open>Responses without a pending call\<close>

text \<open>
  C8. A response whose \<^verbatim>\<open>callId\<close> is not in the registry changes nothing: once the
  handler has run to its end, the state is the state before the payload came, with the
  same registry, promises, sent packets, console and unhandled rejections.
\<close>

theorem unknown_callId_dropped:
  assumes "deserialization (serializerResponse cfg) payload = Inr data"
    and "registry st (rcallId data) = None"
  shows "resume cfg (length (suspended st)) (on_return cfg payload st) = st"
  using assms by (simp add: on_return_def suspend_def resume_def response_settle_def)

theorem unknown_callId_dropped_witness:
  "registry (tick (defaults server)
               (snd (remote_call (defaults server) (StringKey ''echo'') [VStr ''x''] ''a'' init)))
     ''a'' = Some 0 \<and>
   resume (defaults server) 0
     (on_return (defaults server)
        \<lparr>return = VStr ''y'', rcallId = ''b'', rmethod = ''echo'', error = None, rmetadata = None\<rparr>
        (tick (defaults server)
           (snd (remote_call (defaults server) (StringKey ''echo'') [VStr ''x''] ''a'' init))))
   = tick (defaults server)
       (snd (remote_call (defaults server) (StringKey ''echo'') [VStr ''x''] ''a'' init))"
  using unknown_callId_dropped
    [of "defaults server"
        "\<lparr>return = VStr ''y'', rcallId = ''b'', rmethod = ''echo'', error = None, rmetadata = None\<rparr>"
        "\<lparr>return = VStr ''y'', rcallId = ''b'', rmethod = ''echo'', error = None, rmetadata = None\<rparr>"
        "tick (defaults server)
           (snd (remote_call (defaults server) (StringKey ''echo'') [VStr ''x''] ''a'' init))"]
  by (simp add: defaults_def instance_of_def NoSerialization_def remote_call_def init_def
        suspend_def tick_def resume_def message_send_def make_request_def)

section \<open>Payloads that cannot be deserialized\<close>

text \<open>
  C9, as the code has it. When the deserialization of an incoming payload rejects with
  \<open>e\<close>, on the call channel or on the return channel, the handler ends there: nothing is
  sent, the registry and the promises are untouched, nothing is written to the console
  and nothing stays suspended. The rejection is not caught, though: line 137 is outside
  the \<^verbatim>\<open>try\<close> block and line 188 has none, so the promise of the handler itself is
  rejected with \<open>e\<close>, and nothing handles that rejection.
\<close>

theorem deserialization_failure_ends_dispatch:
  "(deserialization (serializerRequest cfg) a = Inl e \<longrightarrow>
      resume cfg (length (suspended st)) (on_call cfg a st) = st\<lparr>unhandled := unhandled st @ [e]\<rparr>) \<and>
   (deserialization (serializerResponse cfg) b = Inl e' \<longrightarrow>
      resume cfg (length (suspended st)) (on_return cfg b st) = st\<lparr>unhandled := unhandled st @ [e']\<rparr>)"
  by (simp add: on_call_def on_return_def suspend_def resume_def uncaught_def)

theorem deserialization_failure_ends_dispatch_witness:
  "deserialization (serializerRequest broken) ''{'' = Inl (VStr ''Unexpected token'') \<and>
   deserialization (serializerResponse broken) ''}'' = Inl (VStr ''Unexpected token'') \<and>
   resume broken 0 (on_call broken ''{'' init)
     = init\<lparr>unhandled := [VStr ''Unexpected token'']\<rparr> \<and>
   resume broken 0 (on_return broken ''}'' init)
     = init\<lparr>unhandled := [VStr ''Unexpected token'']\<rparr>"
proof -
  have h1: "deserialization (serializerRequest broken) ''{'' = Inl (VStr ''Unexpected token'')"
    by (simp add: broken_def instance_of_def Rejecting_def)
  have h2: "deserialization (serializerResponse broken) ''}'' = Inl (VStr ''Unexpected token'')"
    by (simp add: broken_def instance_of_def Rejecting_def)
  show ?thesis
    using h1 h2
      deserialization_failure_ends_dispatch [where cfg = broken and a = "''{''" and b = "''}''"
        and st = "init :: (string, string) state"]
    by (simp add: init_def)
qed

text \<open>The claim as it was stated, with no unhandled fault, fails: a payload that cannot
  be deserialized leaves an unhandled rejection behind.\<close>

theorem deserialization_failure_unhandled:
  "unhandled (tick broken (on_return broken ''}'' init)) \<noteq> unhandled (init :: (string, string) state)"
  by (simp add: broken_def instance_of_def Rejecting_def on_return_def suspend_def init_def
      tick_def resume_def uncaught_def)

section \<open>Sending before registering\<close>




section \<open>Calls across two sides\<close>

lemma remote_call_init:
  "remote_call A (StringKey m) as i init =
     (0, init\<lparr>promises := [Pending],
              suspended := [RequestSerialized i 0 (serialization (serializerRequest A)
                                                     (make_request (reflect A) m as i))]\<rparr>)"
  by (simp add: remote_call_def Let_def suspend_def init_def)

lemma caller_sends:
  assumes "serialization (serializerRequest A) (make_request (reflect A) m as i) = Inr x"
    and "transport A (Call x) = []"
  shows "ticks A (Suc k) (snd (remote_call A (StringKey m) as i init)) =
         init\<lparr>registry := [i \<mapsto> 0], promises := [Pending], sent := [Call x]\<rparr>"
  using assms
  by (simp add: remote_call_def Let_def suspend_def init_def tick_Cons message_send_quiet ticks_quiet)

lemma caller_receives:
  fixes A :: "('a, 'b) AsyncCall"
  assumes "deserialization (serializerResponse A) y = Inr resp" "rcallId resp = i"
  shows "promises (ticks A (Suc k) (deliver A (Return y)
           (init\<lparr>registry := [i \<mapsto> 0], promises := [Pending], sent := [Call x]\<rparr>))) ! 0
         = settlement resp"
proof -
  let ?a = "init\<lparr>registry := [i \<mapsto> 0], promises := [Pending], sent := [Call x]\<rparr> :: ('a, 'b) state"
  let ?b = "response_settle A (rawMetadata A (Return y)) resp ?a"
  have q: "suspended ?a = []"
    by (simp add: init_def)
  have t: "tick A (on_return A y ?a) = ?b"
    using q assms(1) by (rule tick_on_return)
  have r: "registry ?a (rcallId resp) = Some 0" "0 < length (promises ?a)" "promises ?a ! 0 = Pending"
    using assms(2) by (simp_all add: init_def)
  have "suspended ?b = []"
    using response_settle_pending(4) [OF r] q by simp
  moreover have "promises ?b ! 0 = settlement resp"
    using response_settle_pending(1) [OF r] by (simp add: init_def)
  ultimately show ?thesis
    using t by (simp add: ticks_quiet)
qed

lemma round_trip_callee:
  fixes A B :: "('a, 'b) AsyncCall"
  assumes "serialization (serializerRequest A) (make_request (reflect A) m as i) = Inr x"
    and "transport A (Call x) = []"
  shows "snd (snd (round_trip A B m as i (Suc k))) = ticks B (Suc k) (deliver B (Call x) init)"
  unfolding round_trip_def remote_call_init Let_def prod.case
  using caller_sends [OF assms, of k] by (simp add: remote_call_init del: ticks.simps)

lemma round_trip_answered:
  fixes A B :: "('a, 'b) AsyncCall"
  assumes "serialization (serializerRequest A) (make_request (reflect A) m as i) = Inr x"
    and "transport A (Call x) = []"
    and "sent (ticks B (Suc k) (deliver B (Call x) init)) = [Return y]"
    and "deserialization (serializerResponse A) y = Inr resp" "rcallId resp = i"
  shows "fst (round_trip A B m as i (Suc k)) = settlement resp"
proof -
  have a2: "ticks A (Suc k) (snd (remote_call A (StringKey m) as i init)) =
         init\<lparr>registry := [i \<mapsto> 0], promises := [Pending], sent := [Call x]\<rparr>"
    using assms(1,2) by (rule caller_sends)
  have "fst (round_trip A B m as i (Suc k)) =
        promises (ticks A (Suc k) (deliver A (Return y)
           (init\<lparr>registry := [i \<mapsto> 0], promises := [Pending], sent := [Call x]\<rparr>))) ! 0"
    unfolding round_trip_def remote_call_init Let_def prod.case
    using a2 assms(3) by (simp add: remote_call_init del: ticks.simps)
  then show ?thesis
    using caller_receives [OF assms(4,5)] by simp
qed

lemma round_trip_unanswered:
  fixes A B :: "('a, 'b) AsyncCall"
  assumes "serialization (serializerRequest A) (make_request (reflect A) m as i) = Inr x"
    and "transport A (Call x) = []"
    and "\<And>k. sent (ticks B (Suc k) (deliver B (Call x) init)) = []"
  shows "fst (round_trip A B m as i n) = Pending"
proof (cases n)
  case 0
  then show ?thesis
    by (simp add: round_trip_def remote_call_init) (simp add: init_def)
next
  case (Suc k)
  have a2: "ticks A (Suc k) (snd (remote_call A (StringKey m) as i init)) =
         init\<lparr>registry := [i \<mapsto> 0], promises := [Pending], sent := [Call x]\<rparr>"
    using assms(1,2) by (rule caller_sends)
  have q: "suspended (init\<lparr>registry := [i \<mapsto> 0], promises := [Pending], sent := [Call x]\<rparr>
                        :: ('a, 'b) state) = []"
    by (simp add: init_def)
  show ?thesis
    unfolding Suc round_trip_def remote_call_init Let_def prod.case
    using a2 assms(3) [of k] ticks_quiet [OF q, of A "Suc k"]
    by (simp add: remote_call_init del: ticks.simps)
qed

text \<open>The call handler of the other side, on a new instance.\<close>

lemma callee_drops:
  fixes B :: "('a, 'b) AsyncCall"
  assumes "deserialization (serializerRequest B) x = Inr req"
    and "implementation_read B (method req) = None"
    and "dontThrowOnNotImplemented B"
  shows "sent (ticks B (Suc k) (deliver B (Call x) init)) = []"
  using assms
  by (simp add: tick_on_call init_def call_execute_def console_write_def ticks_quiet)

lemma callee_refuses:
  fixes B :: "('a, 'b) AsyncCall"
  assumes "deserialization (serializerRequest B) x = Inr req"
    and "implementation_read B (method req) = None"
    and "\<not> dontThrowOnNotImplemented B"
    and "serialization (serializerResponse B)
           \<lparr>return = VUndefined, rcallId = callId req, rmethod = method req,
            error = Some (VObject
                     [(''message'', VStr (''Remote-call: '' @ method req @ ''() not implemented!'')),
                      (''stack'', stackTrace B (''Remote-call: '' @ method req @ ''() not implemented!''))]
                     []),
            rmetadata = None\<rparr> = Inr y"
    and "\<And>pkt. transport B pkt = []"
  shows "sent (ticks B (Suc (Suc k)) (deliver B (Call x) init)) = [Return y]"
  using assms
  by (simp add: tick_on_call init_def call_execute_def Let_def suspend_def console_write_def
      tick_Cons catch_block_def message_send_quiet ticks_quiet notImplemented_def)

lemma callee_fails:
  fixes B :: "('a, 'b) AsyncCall"
  assumes "deserialization (serializerRequest B) x = Inr req"
    and "implementation_read B (method req) = Some f"
    and "\<And>this as. f this as = Rejects (VError msg stk ms)"
    and "serialization (serializerResponse B)
           \<lparr>return = VUndefined, rcallId = callId req, rmethod = method req,
            error = Some (VObject [(''message'', VStr msg), (''stack'', stk)] []),
            rmetadata = None\<rparr> = Inr y"
    and "\<And>pkt. transport B pkt = []"
  shows "sent (ticks B (Suc (Suc (Suc k))) (deliver B (Call x) init)) = [Return y]"
  using assms
  by (simp add: tick_on_call init_def call_execute_def Let_def suspend_def console_write_def
      tick_Cons catch_block_def message_send_quiet ticks_quiet)

section \<open>What every run keeps\<close>

lemma tracked_empty: "tracked [] Map.empty [] []"
  by (simp add: tracked_def)

lemma collision_free_empty: "collision_free [] Map.empty [] []"
  by (simp add: collision_free_def)

lemma same_promise:
  "distinct (map snd cs) \<Longrightarrow> (i, p) \<in> set cs \<Longrightarrow> (j, p) \<in> set cs \<Longrightarrow> i = j"
  by (metis distinct_map inj_onD prod.inject snd_conv)

lemma same_id:
  "distinct (map fst cs) \<Longrightarrow> (i, p) \<in> set cs \<Longrightarrow> (i, q) \<in> set cs \<Longrightarrow> p = q"
  by (metis distinct_map inj_onD prod.inject fst_conv)

lemma tracked_call:
  assumes "tracked cs reg prs ser"
  shows "tracked (cs @ [(i, length prs)]) reg (prs @ [Pending]) (ser @ [(i, length prs)])"
  using assms unfolding tracked_def
  by (intro conjI allI impI; fastforce simp add: nth_append)

lemma collision_free_call:
  assumes "tracked cs reg prs ser" "collision_free cs reg prs ser" "reg i = None" "i \<notin> fst ` set ser"
  shows "collision_free (cs @ [(i, length prs)]) reg (prs @ [Pending]) (ser @ [(i, length prs)])"
  using assms unfolding tracked_def collision_free_def
  by (intro conjI allI impI; fastforce simp add: nth_append)

lemma tracked_append:
  assumes "tracked cs reg prs ser"
  shows "tracked cs reg (prs @ [x]) ser"
  using assms unfolding tracked_def
  by (intro conjI allI impI; fastforce simp add: nth_append)

lemma collision_free_append:
  assumes "tracked cs reg prs ser" "collision_free cs reg prs ser"
  shows "collision_free cs reg (prs @ [x]) ser"
  using assms unfolding tracked_def collision_free_def
  by (intro conjI allI impI; fastforce simp add: nth_append)

lemma trackedI:
  assumes "\<And>i p. (i, p) \<in> set cs \<Longrightarrow> p < length prs"
    and "distinct (map snd cs)" and "distinct (map snd ser)"
    and "\<And>i p. (i, p) \<in> set ser \<Longrightarrow>
           (i, p) \<in> set cs \<and> p < length prs \<and> prs ! p = Pending \<and> (\<forall>j. reg j \<noteq> Some p)"
    and "\<And>i p. reg i = Some p \<Longrightarrow> (i, p) \<in> set cs \<and> p < length prs \<and> prs ! p = Pending"
  shows "tracked cs reg prs ser"
  unfolding tracked_def using assms by blast

lemma tracked_csD: "tracked cs reg prs ser \<Longrightarrow> (i, p) \<in> set cs \<Longrightarrow> p < length prs"
  unfolding tracked_def by blast

lemma tracked_distinct: "tracked cs reg prs ser \<Longrightarrow> distinct (map snd cs)"
  and tracked_distinct_ser: "tracked cs reg prs ser \<Longrightarrow> distinct (map snd ser)"
  unfolding tracked_def by blast+

lemma tracked_serD:
  assumes "tracked cs reg prs ser" "(i, p) \<in> set ser"
  shows "(i, p) \<in> set cs" "p < length prs" "prs ! p = Pending" "reg j \<noteq> Some p"
  using assms unfolding tracked_def by blast+

lemma tracked_regD:
  assumes "tracked cs reg prs ser" "reg i = Some p"
  shows "(i, p) \<in> set cs" "p < length prs" "prs ! p = Pending"
  using assms unfolding tracked_def by blast+

lemma collision_freeI:
  assumes "\<And>i p. (i, p) \<in> set cs \<Longrightarrow> prs ! p = Pending \<Longrightarrow> reg i = Some p \<or> (i, p) \<in> set ser"
    and "distinct (map fst ser)"
    and "\<And>i p. (i, p) \<in> set ser \<Longrightarrow> reg i = None"
  shows "collision_free cs reg prs ser"
  unfolding collision_free_def using assms by blast

lemma collision_free_csD:
  "collision_free cs reg prs ser \<Longrightarrow> (i, p) \<in> set cs \<Longrightarrow> prs ! p = Pending \<Longrightarrow>
   reg i = Some p \<or> (i, p) \<in> set ser"
  unfolding collision_free_def by blast

lemma collision_free_distinct: "collision_free cs reg prs ser \<Longrightarrow> distinct (map fst ser)"
  unfolding collision_free_def by blast

lemma collision_free_serD: "collision_free cs reg prs ser \<Longrightarrow> (i, p) \<in> set ser \<Longrightarrow> reg i = None"
  unfolding collision_free_def by blast

lemma distinct_mid:
  "distinct (map f (sp @ x # ss)) \<Longrightarrow> y \<in> set (sp @ ss) \<Longrightarrow> f y \<noteq> f x"
  by (force simp add: image_iff)

lemma distinct_without_mid:
  "distinct (map f (sp @ x # ss)) \<Longrightarrow> distinct (map f (sp @ ss))"
  by simp

lemma in_without_mid: "y \<in> set (sp @ ss) \<Longrightarrow> y \<in> set (sp @ x # ss)"
  by auto

lemma tracked_register:
  assumes b: "tracked cs reg prs (sp @ (i, p) # ss)"
  shows "tracked cs (reg(i \<mapsto> p)) prs (sp @ ss)"
proof (rule trackedI)
  show "\<And>j q. (j, q) \<in> set cs \<Longrightarrow> q < length prs"
    using b by (rule tracked_csD)
  show "distinct (map snd cs)"
    using b by (rule tracked_distinct)
  show "distinct (map snd (sp @ ss))"
    using tracked_distinct_ser [OF b] by (rule distinct_without_mid)
next
  fix j q assume m: "(j, q) \<in> set (sp @ ss)"
  then have m': "(j, q) \<in> set (sp @ (i, p) # ss)"
    by (rule in_without_mid)
  have "q \<noteq> p"
    using distinct_mid [OF tracked_distinct_ser [OF b] m] by simp
  then have "\<forall>k. (reg(i \<mapsto> p)) k \<noteq> Some q"
    using tracked_serD(4) [OF b m'] by simp
  then show "(j, q) \<in> set cs \<and> q < length prs \<and> prs ! q = Pending \<and> (\<forall>k. (reg(i \<mapsto> p)) k \<noteq> Some q)"
    using tracked_serD(1,2,3) [OF b m'] by blast
next
  fix j q assume r: "(reg(i \<mapsto> p)) j = Some q"
  have ip: "(i, p) \<in> set (sp @ (i, p) # ss)"
    by simp
  show "(j, q) \<in> set cs \<and> q < length prs \<and> prs ! q = Pending"
  proof (cases "j = i")
    case True
    then have "q = p" using r by simp
    then show ?thesis
      using True tracked_serD(1,2,3) [OF b ip] by blast
  next
    case False
    then have "reg j = Some q" using r by simp
    then show ?thesis
      using tracked_regD [OF b] by blast
  qed
qed

lemma collision_free_register:
  assumes b: "tracked cs reg prs (sp @ (i, p) # ss)" and e: "collision_free cs reg prs (sp @ (i, p) # ss)"
  shows "collision_free cs (reg(i \<mapsto> p)) prs (sp @ ss)"
proof (rule collision_freeI)
  fix j q assume c: "(j, q) \<in> set cs" and pend: "prs ! q = Pending"
  have ip: "(i, p) \<in> set (sp @ (i, p) # ss)"
    by simp
  from collision_free_csD [OF e c pend]
  show "(reg(i \<mapsto> p)) j = Some q \<or> (j, q) \<in> set (sp @ ss)"
  proof
    assume r: "reg j = Some q"
    have "j \<noteq> i"
      using collision_free_serD [OF e ip] r by auto
    then show ?thesis using r by simp
  next
    assume "(j, q) \<in> set (sp @ (i, p) # ss)"
    then show ?thesis by auto
  qed
next
  show "distinct (map fst (sp @ ss))"
    using collision_free_distinct [OF e] by (rule distinct_without_mid)
next
  fix j q assume m: "(j, q) \<in> set (sp @ ss)"
  then have m': "(j, q) \<in> set (sp @ (i, p) # ss)"
    by (rule in_without_mid)
  have "j \<noteq> i"
    using distinct_mid [OF collision_free_distinct [OF e] m] by simp
  then show "(reg(i \<mapsto> p)) j = None"
    using collision_free_serD [OF e m'] by simp
qed

lemma length_settle_at [simp]: "length (settle_at p s prs) = length prs"
  by (simp add: settle_at_def)

lemma nth_settle_at_other: "q \<noteq> p \<Longrightarrow> settle_at p s prs ! q = prs ! q"
  by (simp add: settle_at_def)

lemma nth_settle_at_same:
  "p < length prs \<Longrightarrow> prs ! p = Pending \<Longrightarrow> settle_at p s prs ! p = s"
  by (simp add: settle_at_def)

lemma tracked_reject:
  assumes b: "tracked cs reg prs (sp @ (i, p) # ss)"
  shows "tracked cs reg (settle_at p s prs) (sp @ ss)"
proof (rule trackedI)
  show "\<And>j q. (j, q) \<in> set cs \<Longrightarrow> q < length (settle_at p s prs)"
    using tracked_csD [OF b] by simp
  show "distinct (map snd cs)"
    using b by (rule tracked_distinct)
  show "distinct (map snd (sp @ ss))"
    using tracked_distinct_ser [OF b] by (rule distinct_without_mid)
next
  fix j q assume m: "(j, q) \<in> set (sp @ ss)"
  then have m': "(j, q) \<in> set (sp @ (i, p) # ss)"
    by (rule in_without_mid)
  have "q \<noteq> p"
    using distinct_mid [OF tracked_distinct_ser [OF b] m] by simp
  then have "settle_at p s prs ! q = prs ! q"
    by (rule nth_settle_at_other)
  then show "(j, q) \<in> set cs \<and> q < length (settle_at p s prs) \<and>
             settle_at p s prs ! q = Pending \<and> (\<forall>k. reg k \<noteq> Some q)"
    using tracked_serD [OF b m'] by simp
next
  fix j q assume r: "reg j = Some q"
  have ip: "(i, p) \<in> set (sp @ (i, p) # ss)"
    by simp
  have "q \<noteq> p"
    using tracked_serD(4) [OF b ip, of j] r by auto
  then have "settle_at p s prs ! q = prs ! q"
    by (rule nth_settle_at_other)
  then show "(j, q) \<in> set cs \<and> q < length (settle_at p s prs) \<and> settle_at p s prs ! q = Pending"
    using tracked_regD [OF b r] by simp
qed

lemma collision_free_reject:
  assumes b: "tracked cs reg prs (sp @ (i, p) # ss)" and e: "collision_free cs reg prs (sp @ (i, p) # ss)"
    and s: "s \<noteq> Pending"
  shows "collision_free cs reg (settle_at p s prs) (sp @ ss)"
proof (rule collision_freeI)
  fix j q assume c: "(j, q) \<in> set cs" and pend: "settle_at p s prs ! q = Pending"
  have ip: "(i, p) \<in> set (sp @ (i, p) # ss)"
    by simp
  have qp: "q \<noteq> p"
    using nth_settle_at_same [OF tracked_serD(2,3) [OF b ip], of s] pend s by auto
  then have "prs ! q = Pending"
    using pend by (simp add: nth_settle_at_other)
  from collision_free_csD [OF e c this] qp
  show "reg j = Some q \<or> (j, q) \<in> set (sp @ ss)"
    by auto
next
  show "distinct (map fst (sp @ ss))"
    using collision_free_distinct [OF e] by (rule distinct_without_mid)
next
  fix j q assume m: "(j, q) \<in> set (sp @ ss)"
  then have "(j, q) \<in> set (sp @ (i, p) # ss)"
    by (rule in_without_mid)
  then show "reg j = None"
    by (rule collision_free_serD [OF e])
qed

lemma tracked_settle:
  assumes b: "tracked cs reg prs ser" and r: "reg i = Some p"
  shows "tracked cs (reg(i := None)) (settle_at p s prs) ser"
proof (rule trackedI)
  show "\<And>j q. (j, q) \<in> set cs \<Longrightarrow> q < length (settle_at p s prs)"
    using tracked_csD [OF b] by simp
  show "distinct (map snd cs)"
    using b by (rule tracked_distinct)
  show "distinct (map snd ser)"
    using b by (rule tracked_distinct_ser)
next
  fix j q assume m: "(j, q) \<in> set ser"
  have "q \<noteq> p"
    using tracked_serD(4) [OF b m, of i] r by auto
  then have "settle_at p s prs ! q = prs ! q"
    by (rule nth_settle_at_other)
  then show "(j, q) \<in> set cs \<and> q < length (settle_at p s prs) \<and>
             settle_at p s prs ! q = Pending \<and> (\<forall>k. (reg(i := None)) k \<noteq> Some q)"
    using tracked_serD [OF b m] by simp
next
  fix j q assume r': "(reg(i := None)) j = Some q"
  then have ji: "j \<noteq> i" and rj: "reg j = Some q"
    by (auto split: if_splits)
  have "q \<noteq> p"
    using same_promise [OF tracked_distinct [OF b] tracked_regD(1) [OF b rj]] tracked_regD(1) [OF b r] ji
    by auto
  then have "settle_at p s prs ! q = prs ! q"
    by (rule nth_settle_at_other)
  then show "(j, q) \<in> set cs \<and> q < length (settle_at p s prs) \<and> settle_at p s prs ! q = Pending"
    using tracked_regD [OF b rj] by simp
qed

lemma collision_free_settle:
  assumes b: "tracked cs reg prs ser" and e: "collision_free cs reg prs ser" and r: "reg i = Some p"
    and s: "s \<noteq> Pending"
  shows "collision_free cs (reg(i := None)) (settle_at p s prs) ser"
proof (rule collision_freeI)
  fix j q assume c: "(j, q) \<in> set cs" and pend: "settle_at p s prs ! q = Pending"
  have qp: "q \<noteq> p"
    using nth_settle_at_same [OF tracked_regD(2,3) [OF b r], of s] pend s by auto
  then have "prs ! q = Pending"
    using pend by (simp add: nth_settle_at_other)
  from collision_free_csD [OF e c this]
  show "(reg(i := None)) j = Some q \<or> (j, q) \<in> set ser"
  proof
    assume rj: "reg j = Some q"
    then have "j \<noteq> i" using r qp by auto
    then show ?thesis using rj by simp
  next
    assume "(j, q) \<in> set ser"
    then show ?thesis by simp
  qed
next
  show "distinct (map fst ser)"
    using e by (rule collision_free_distinct)
next
  fix j q assume "(j, q) \<in> set ser"
  then have "reg j = None"
    by (rule collision_free_serD [OF e])
  then show "(reg(i := None)) j = None"
    by simp
qed

lemma quiet_refl: "quiet_step st st"
  by (simp add: quiet_step_def)

lemma quiet_trans: "quiet_step a b \<Longrightarrow> quiet_step b c \<Longrightarrow> quiet_step a c"
  by (simp add: quiet_step_def)

lemma quiet_suspend: "task_call t = [] \<Longrightarrow> quiet_step st (suspend t st)"
  by (simp add: quiet_step_def suspend_def serializing_def)

lemma quiet_uncaught: "quiet_step st (uncaught e st)"
  by (simp add: quiet_step_def uncaught_def serializing_def)

lemma quiet_console_write: "quiet_step st (console_write l st)"
  by (simp add: quiet_step_def console_write_def serializing_def)

lemma quiet_deliver: "quiet_step st (deliver cfg d st)"
  by (cases d) (simp_all add: on_call_def on_return_def quiet_suspend)

lemma quiet_deliveries: "quiet_step st (foldl (\<lambda>s d. deliver cfg d s) st ds)"
proof (induction ds arbitrary: st)
  case Nil
  show ?case by (simp add: quiet_refl)
next
  case (Cons d ds)
  show ?case
    using quiet_trans [OF quiet_deliver Cons.IH] by simp
qed

lemma quiet_message_send: "quiet_step st (message_send cfg pkt st)"
proof -
  have "quiet_step st (st\<lparr>sent := sent st @ [pkt]\<rparr>)"
    by (simp add: quiet_step_def serializing_def)
  then show ?thesis
    unfolding message_send_def using quiet_deliveries by (rule quiet_trans)
qed

lemma quiet_catch_block: "quiet_step st (catch_block cfg data err st)"
  unfolding catch_block_def Let_def
  by (auto intro: quiet_uncaught quiet_suspend quiet_trans [OF quiet_console_write quiet_suspend])

lemma quiet_call_respond: "quiet_step st (call_respond cfg data result st)"
  unfolding call_respond_def Let_def by (simp add: quiet_suspend)

lemma quiet_call_execute: "quiet_step st (call_execute cfg m data st)"
  unfolding call_execute_def implementation_read_def Let_def
  by (auto split: option.splits outcome.splits
      intro: quiet_console_write quiet_catch_block quiet_suspend quiet_refl
        quiet_trans [OF quiet_console_write quiet_suspend])

lemma promises_reject: "promises (reject p e st) = settle_at p (Rejected e) (promises st)"
  and registry_reject: "registry (reject p e st) = registry st"
  and suspended_reject: "suspended (reject p e st) = suspended st"
  by (simp_all add: reject_def settle_at_def)

lemma promises_resolve: "promises (resolve p v st) = settle_at p (Resolved v) (promises st)"
  and registry_resolve: "registry (resolve p v st) = registry st"
  and suspended_resolve: "suspended (resolve p v st) = suspended st"
  by (simp_all add: resolve_def settle_at_def)

lemma settlement_not_Pending: "settlement data \<noteq> Pending"
  by (simp add: settlement_def)

lemma response_settle_found:
  assumes "registry st (rcallId data) = Some p"
  shows "registry (response_settle cfg m data st) = (registry st)(rcallId data := None)"
    and "promises (response_settle cfg m data st) = settle_at p (settlement data) (promises st)"
    and "suspended (response_settle cfg m data st) = suspended st"
  using assms
  by (simp_all add: response_settle_def Let_def settlement_def console_write_def
      promises_reject promises_resolve registry_reject registry_resolve
      suspended_reject suspended_resolve)

lemma response_settle_not_found:
  "registry st (rcallId data) = None \<Longrightarrow> response_settle cfg m data st = st"
  by (simp add: response_settle_def)

lemma resume_split:
  assumes "n < length (suspended st)"
  shows "suspended st = take n (suspended st) @ suspended st ! n # drop (Suc n) (suspended st)"
  using assms by (rule id_take_nth_drop)

lemma resume_view:
  fixes st :: "('a, 'b) state"
  assumes n: "n < length (suspended st)"
  obtains (quiet) "quiet_step st (resume cfg n st)"
  | (register) i p sp ss where "serializing st = sp @ (i, p) # ss"
      "serializing (resume cfg n st) = sp @ ss"
      "registry (resume cfg n st) = (registry st)(i \<mapsto> p)"
      "promises (resume cfg n st) = promises st"
  | (reject) i p e sp ss where "serializing st = sp @ (i, p) # ss"
      "serializing (resume cfg n st) = sp @ ss"
      "registry (resume cfg n st) = registry st"
      "promises (resume cfg n st) = settle_at p (Rejected e) (promises st)"
  | (settle) i p s m data where "registry st i = Some p" "s \<noteq> Pending"
      "serializing (resume cfg n st) = serializing st"
      "registry (resume cfg n st) = (registry st)(i := None)"
      "promises (resume cfg n st) = settle_at p s (promises st)"
      "suspended st ! n = ResponseDeserialized m (Inr data)" "i = rcallId data"
      "s = settlement data"
proof -
  let ?pre = "take n (suspended st)" and ?post = "drop (Suc n) (suspended st)"
  let ?t = "suspended st ! n"
  let ?st = "st\<lparr>suspended := ?pre @ ?post\<rparr>"
  have r: "resume cfg n st = run_task cfg ?t ?st"
    using n by (simp add: resume_def)
  have ser: "serializing st = concat (map task_call ?pre) @ task_call ?t @ concat (map task_call ?post)"
    unfolding serializing_def by (subst resume_split [OF n]) simp
  have ser': "serializing ?st = concat (map task_call ?pre) @ concat (map task_call ?post)"
    by (simp add: serializing_def)
  have q0: "task_call ?t = [] \<Longrightarrow> quiet_step st ?st"
    using ser ser' by (simp add: quiet_step_def)
  show ?thesis
  proof (cases ?t)
    case (CallDeserialized m res)
    then have "quiet_step ?st (run_task cfg ?t ?st)"
      by (cases res) (simp_all add: quiet_uncaught quiet_call_execute)
    then show ?thesis
      using quiet [unfolded r] quiet_trans [OF q0] CallDeserialized by simp
  next
    case (CallSettled data out)
    then have "quiet_step ?st (run_task cfg ?t ?st)"
      by (cases out) (simp_all add: quiet_call_respond quiet_catch_block quiet_refl)
    then show ?thesis
      using quiet [unfolded r] quiet_trans [OF q0] CallSettled by simp
  next
    case (ResponseSerialized data res)
    then have "quiet_step ?st (run_task cfg ?t ?st)"
      by (cases res) (simp_all add: quiet_message_send quiet_catch_block)
    then show ?thesis
      using quiet [unfolded r] quiet_trans [OF q0] ResponseSerialized by simp
  next
    case (ErrorSerialized res)
    then have "quiet_step ?st (run_task cfg ?t ?st)"
      by (cases res) (simp_all add: quiet_message_send quiet_uncaught)
    then show ?thesis
      using quiet [unfolded r] quiet_trans [OF q0] ErrorSerialized by simp
  next
    case (ResponseDeserialized m res)
    show ?thesis
    proof (cases res)
      case (Inl e)
      then have "quiet_step ?st (run_task cfg ?t ?st)"
        using ResponseDeserialized by (simp add: quiet_uncaught)
      then show ?thesis
        using quiet [unfolded r] quiet_trans [OF q0] ResponseDeserialized by simp
    next
      case (Inr data)
      show ?thesis
      proof (cases "registry st (rcallId data)")
        case None
        then have "run_task cfg ?t ?st = ?st"
          using ResponseDeserialized Inr by (simp add: response_settle_not_found)
        then show ?thesis
          using quiet [unfolded r] q0 ResponseDeserialized by simp
      next
        case (Some p)
        then have f: "registry ?st (rcallId data) = Some p"
          by simp
        have t: "resume cfg n st = response_settle cfg m data ?st"
          using r ResponseDeserialized Inr by simp
        have "task_call ?t = []"
          using ResponseDeserialized by simp
        then have "serializing (resume cfg n st) = serializing st"
          using response_settle_found(3) [OF f, of cfg m] ser
          by (simp add: t serializing_def)
        then show ?thesis
          using settle [where i = "rcallId data" and s = "settlement data" and m = m and data = data,
              OF Some settlement_not_Pending]
            response_settle_found(1,2) [OF f, of cfg m] ResponseDeserialized Inr
          by (simp add: t)
      qed
    qed
  next
    case (RequestSerialized i p res)
    have s: "serializing st = concat (map task_call ?pre) @ (i, p) # concat (map task_call ?post)"
      using ser RequestSerialized by simp
    show ?thesis
    proof (cases res)
      case (Inl e)
      then have t: "resume cfg n st = Spec2Isabelle.reject p e ?st"
        using r RequestSerialized by simp
      show ?thesis
        using reject [OF s, of e] ser'
        by (simp add: t promises_reject registry_reject serializing_def suspended_reject)
    next
      case (Inr data)
      let ?s1 = "message_send cfg (Call data) ?st"
      have t: "resume cfg n st = ?s1\<lparr>registry := (registry ?s1)(i \<mapsto> p)\<rparr>"
        using r RequestSerialized Inr by (simp add: Let_def)
      have q: "quiet_step ?st ?s1"
        by (rule quiet_message_send)
      show ?thesis
        using register [OF s] ser' q
        by (simp add: t quiet_step_def serializing_def)
    qed
  qed
qed

lemma serializing_init [simp]: "serializing init = []"
  by (simp add: serializing_def init_def)

lemma remote_call_string:
  assumes "remote_call cfg (StringKey m) as i st = (p, st')"
  shows "p = length (promises st)" "registry st' = registry st"
    "promises st' = promises st @ [Pending]" "serializing st' = serializing st @ [(i, p)]"
  using assms by (auto simp add: remote_call_def Let_def suspend_def serializing_def)

lemma remote_call_symbol:
  assumes "remote_call cfg (SymbolKey s) as i st = (p, st')"
  shows "registry st' = registry st"
    "promises st' = promises st @ [Rejected (VStr ''Only string can be keys'')]"
    "serializing st' = serializing st"
  using assms by (auto simp add: remote_call_def Let_def reject_def serializing_def)

lemma run_base:
  assumes "run cfg gen cs st"
  shows "tracked cs (registry st) (promises st) (serializing st)"
  using assms
proof (induction rule: run.induct)
  case start
  show ?case by (simp add: init_def tracked_empty [simplified] serializing_init [unfolded init_def])
next
  case (call cs st i m as p st')
  show ?case
    using tracked_call [OF call.IH, of i] remote_call_string [OF call.hyps(3)] by simp
next
  case (bad_call cs st s as i p st')
  show ?case
    using tracked_append [OF bad_call.IH] remote_call_symbol [OF bad_call.hyps(2)] by simp
next
  case (receive cs st pkt)
  show ?case
    using receive.IH quiet_deliver [of st cfg pkt] by (simp add: quiet_step_def)
next
  case (resume cs st n)
  from resume.hyps(2) show ?case
  proof (cases rule: resume_view [where cfg = cfg])
    case quiet
    then show ?thesis using resume.IH by (simp add: quiet_step_def)
  next
    case (register i p sp ss)
    show ?thesis
      unfolding register(2,3,4) by (rule tracked_register [OF resume.IH [unfolded register(1)]])
  next
    case (reject i p e sp ss)
    show ?thesis
      unfolding reject(2,3,4) by (rule tracked_reject [OF resume.IH [unfolded reject(1)]])
  next
    case (settle i p s)
    show ?thesis
      unfolding settle(3,4,5) by (rule tracked_settle [OF resume.IH settle(1)])
  qed
qed

lemma run_extras:
  assumes "run cfg unused cs st"
  shows "collision_free cs (registry st) (promises st) (serializing st)"
  using assms
proof (induction rule: run.induct)
  case start
  show ?case by (simp add: init_def collision_free_empty [simplified] serializing_init [unfolded init_def])
next
  case (call cs st i m as p st')
  show ?case
    using collision_free_call [OF run_base [OF call.hyps(1)] call.IH, of i] call.hyps(2)
      remote_call_string [OF call.hyps(3)]
    by (simp add: unused_def)
next
  case (bad_call cs st s as i p st')
  show ?case
    using collision_free_append [OF run_base [OF bad_call.hyps(1)] bad_call.IH]
      remote_call_symbol [OF bad_call.hyps(2)] by simp
next
  case (receive cs st pkt)
  show ?case
    using receive.IH quiet_deliver [of st cfg pkt] by (simp add: quiet_step_def)
next
  case (resume cs st n)
  note b = run_base [OF resume.hyps(1)]
  from resume.hyps(2) show ?case
  proof (cases rule: resume_view [where cfg = cfg])
    case quiet
    then show ?thesis using resume.IH by (simp add: quiet_step_def)
  next
    case (register i p sp ss)
    show ?thesis
      unfolding register(2,3,4)
      by (rule collision_free_register [OF b [unfolded register(1)] resume.IH [unfolded register(1)]])
  next
    case (reject i p e sp ss)
    show ?thesis
      unfolding reject(2,3,4)
      by (rule collision_free_reject [OF b [unfolded reject(1)] resume.IH [unfolded reject(1)]]) simp
  next
    case (settle i p s)
    show ?thesis
      unfolding settle(3,4,5) by (rule collision_free_settle [OF b resume.IH settle(1,2)])
  qed
qed

section \<open>Responses in a reachable state\<close>

lemma receive_responses_append:
  "receive_responses cfg (xs @ ys) st = receive_responses cfg ys (receive_responses cfg xs st)"
  by (induction xs arbitrary: st) simp_all

lemma receive_response_eq:
  "receive_response cfg y st =
     (case deserialization (serializerResponse cfg) y of
        Inl e \<Rightarrow> uncaught e st
      | Inr r \<Rightarrow> response_settle cfg (rawMetadata cfg (Return y)) r st)"
  by (simp add: receive_response_def on_return_def suspend_def resume_def suspended_same
      split: sum.splits)

lemma run_receive_response:
  assumes "run cfg gen cs st"
  shows "run cfg gen cs (receive_response cfg y st)"
proof -
  have "run cfg gen cs (deliver cfg (Return y) st)"
    using assms by (rule run.receive)
  then have "run cfg gen cs (resume cfg (length (suspended st)) (deliver cfg (Return y) st))"
    by (rule run.resume) (simp add: on_return_def suspend_def)
  then show ?thesis
    by (simp add: receive_response_def)
qed

lemma run_receive_responses:
  "run cfg gen cs st \<Longrightarrow> run cfg gen cs (receive_responses cfg ys st)"
  by (induction ys arbitrary: st) (simp_all add: run_receive_response)

text \<open>In a reachable state a registered promise is pending, and registered under one id.\<close>

lemma run_registry:
  assumes "run cfg gen cs st" "registry st i = Some p"
  shows "p < length (promises st)" "promises st ! p = Pending"
    "registry st j = Some p \<Longrightarrow> j = i"
proof -
  note b = run_base [OF assms(1)]
  show "p < length (promises st)" "promises st ! p = Pending"
    using tracked_regD [OF b assms(2)] by simp_all
  show "j = i" if "registry st j = Some p"
    using same_promise [OF tracked_distinct [OF b] tracked_regD(1) [OF b that] tracked_regD(1) [OF b assms(2)]] .
qed

lemma other_response_keeps:
  assumes r: "run cfg gen cs st" and reg: "registry st c = Some p" and no: "\<not> answers cfg c y"
  shows "registry (receive_response cfg y st) c = Some p \<and>
         promises (receive_response cfg y st) ! p = Pending"
proof (cases "deserialization (serializerResponse cfg) y")
  case (Inl e)
  then show ?thesis
    using reg run_registry(2) [OF r reg] by (simp add: receive_response_eq uncaught_def)
next
  case (Inr d)
  then have ne: "rcallId d \<noteq> c"
    using no by (simp add: answers_def)
  show ?thesis
  proof (cases "registry st (rcallId d)")
    case None
    then show ?thesis
      using Inr reg run_registry(2) [OF r reg]
      by (simp add: receive_response_eq response_settle_not_found)
  next
    case (Some q)
    have "q \<noteq> p"
      using run_registry(3) [OF r reg, of "rcallId d"] Some ne by auto
    then show ?thesis
      using Inr reg run_registry(2) [OF r reg] ne
        response_settle_found(1,2) [OF Some, of cfg "rawMetadata cfg (Return y)"]
      by (simp add: receive_response_eq nth_settle_at_other)
  qed
qed

lemma other_responses_keep:
  assumes "run cfg gen cs st" "registry st c = Some p" "\<forall>z\<in>set ys. \<not> answers cfg c z"
  shows "registry (receive_responses cfg ys st) c = Some p \<and>
         promises (receive_responses cfg ys st) ! p = Pending"
  using assms
proof (induction ys arbitrary: st)
  case Nil
  then show ?case using run_registry(2) by simp
next
  case (Cons y ys)
  have "run cfg gen cs (receive_response cfg y st)"
    using Cons.prems(1) by (rule run_receive_response)
  moreover have "registry (receive_response cfg y st) c = Some p"
    using other_response_keeps [OF Cons.prems(1,2)] Cons.prems(3) by simp
  ultimately show ?case
    using Cons.IH [of "receive_response cfg y st"] Cons.prems(3) by simp
qed

lemma settled_stays:
  assumes "p < length (promises st)" "promises st ! p \<noteq> Pending"
  shows "p < length (promises (receive_response cfg y st)) \<and>
         promises (receive_response cfg y st) ! p = promises st ! p"
proof (cases "deserialization (serializerResponse cfg) y")
  case (Inl e)
  then show ?thesis
    using assms by (simp add: receive_response_eq uncaught_def)
next
  case (Inr d)
  show ?thesis
  proof (cases "registry st (rcallId d)")
    case None
    then show ?thesis
      using Inr assms by (simp add: receive_response_eq response_settle_not_found)
  next
    case (Some q)
    have "settle_at q s (promises st) ! p = promises st ! p" for s
      using assms by (cases "q = p") (simp_all add: settle_at_def)
    then show ?thesis
      using Inr assms response_settle_found(2) [OF Some, of cfg "rawMetadata cfg (Return y)"]
      by (simp add: receive_response_eq)
  qed
qed

lemma settled_stays_all:
  assumes "p < length (promises st)" "promises st ! p \<noteq> Pending"
  shows "promises (receive_responses cfg ys st) ! p = promises st ! p"
  using assms
proof (induction ys arbitrary: st)
  case Nil
  show ?case by simp
next
  case (Cons y ys)
  show ?case
    using Cons.IH [of "receive_response cfg y st"] settled_stays [OF Cons.prems, of cfg y]
      Cons.prems(2) by simp
qed

lemma unregistered_stays:
  assumes "registry st c = None"
  shows "registry (receive_response cfg y st) c = None"
proof (cases "deserialization (serializerResponse cfg) y")
  case (Inl e)
  then show ?thesis using assms by (simp add: receive_response_eq uncaught_def)
next
  case (Inr d)
  show ?thesis
  proof (cases "registry st (rcallId d)")
    case None
    then show ?thesis using Inr assms by (simp add: receive_response_eq response_settle_not_found)
  next
    case (Some q)
    then show ?thesis
      using Inr assms response_settle_found(1) [OF Some, of cfg "rawMetadata cfg (Return y)"]
      by (simp add: receive_response_eq)
  qed
qed

lemma late_response_dropped:
  assumes "registry st c = None" "answers cfg c y"
  shows "receive_response cfg y st = st"
  using assms
  by (auto simp add: receive_response_eq answers_def response_settle_not_found split: sum.splits)

lemma late_responses_dropped:
  assumes "registry st c = None"
  shows "receive_responses cfg ys st = receive_responses cfg (filter (\<lambda>z. \<not> answers cfg c z) ys) st"
  using assms
proof (induction ys arbitrary: st)
  case Nil
  show ?case by simp
next
  case (Cons y ys)
  show ?case
  proof (cases "answers cfg c y")
    case True
    then show ?thesis
      using Cons.IH [OF Cons.prems] late_response_dropped [OF Cons.prems True] by simp
  next
    case False
    then show ?thesis
      using Cons.IH [OF unregistered_stays [OF Cons.prems, of cfg y]] by simp
  qed
qed

text \<open>A run of a generator is a run of the code, which takes any id; and in a run of
  the generator \<open>unused\<close> an outstanding call is registered under its id, which no call
  that is being serialized has.\<close>

lemma run_anything: "run cfg gen cs st \<Longrightarrow> run cfg anything cs st"
  by (induction rule: run.induct) (auto intro: run.intros simp add: anything_def)

lemma outstanding_registered:
  assumes "run cfg unused cs st" and "(c, p) \<in> set (outstanding cs st)"
  shows "registry st c = Some p" and "c \<notin> fst ` set (serializing st)"
proof -
  note e = run_extras [OF assms(1)]
  have "(c, p) \<in> set cs" "promises st ! p = Pending" "(c, p) \<notin> set (serializing st)"
    using assms(2) by (simp_all add: outstanding_def)
  then show r: "registry st c = Some p"
    using collision_free_csD [OF e] by blast
  show "c \<notin> fst ` set (serializing st)"
  proof
    assume "c \<in> fst ` set (serializing st)"
    then obtain q where "(c, q) \<in> set (serializing st)"
      by auto
    then have "registry st c = None"
      using e unfolding collision_free_def by blast
    then show False
      using r by simp
  qed
qed

text \<open>One call of the side that implements nothing, with its request sent.\<close>

lemma client_one_call:
  fixes st1 :: "(request, response) state"
  assumes "remote_call client (StringKey m) as i init = (0, st1)" and "gen init i"
  shows "run client gen [(i, 0)] (tick client st1)"
    and "tick client st1 =
         init\<lparr>registry := [i \<mapsto> 0], promises := [Pending],
               sent := [Call (make_request False m as i)]\<rparr>"
proof -
  have "run client gen ([] @ [(i, 0)]) st1"
    using run.start assms(2,1) by (rule run.call)
  then have "run client gen ([] @ [(i, 0)]) (resume client 0 st1)"
    by (rule run.resume) (use assms(1) in \<open>auto simp add: remote_call_init\<close>)
  then show "run client gen [(i, 0)] (tick client st1)"
    by (simp add: tick_def)
  have "st1 = snd (remote_call client (StringKey m) as i init)"
    using assms(1) by simp
  then show "tick client st1 =
         init\<lparr>registry := [i \<mapsto> 0], promises := [Pending],
               sent := [Call (make_request False m as i)]\<rparr>"
    using caller_sends [of client m as i "make_request False m as i" 0]
    by (simp add: client_def defaults_def instance_of_def NoSerialization_def)
qed

section \<open>Errors that come back\<close>

text \<open>
  The response handler on a response whose \<^verbatim>\<open>callId\<close> is registered, in any reachable
  state: if the \<^verbatim>\<open>error\<close> field is truthy, as every object with a message and a stack
  is, the promise is rejected with a new error that has the carried message and stack;
  otherwise the promise is resolved with the return value.
\<close>

lemma registered_response_settles:
  assumes run: "run cfg anything cs st"
    and reg: "registry st (rcallId data) = Some p"
  shows "promises (run_task cfg (ResponseDeserialized md (Inr data)) st) ! p =
           (if truthy (data_error data)
            then Rejected (newError (get_prop (data_error data) ''message'')
                             (get_prop (data_error data) ''stack''))
            else Resolved (return data))"
  using response_settle_pending(1) [OF reg run_registry(1,2) [OF run reg], of cfg md]
    run_registry(1) [OF run reg]
  by (simp add: settlement_def)

text \<open>
  From end to end, over a transport that only queues and serializers that lose neither
  the request nor the error response: when the implementation of \<open>m\<close> on side \<open>B\<close>
  throws an error with the message \<open>msg\<close>, the promise of the call of \<open>m\<close> on side \<open>A\<close>
  is rejected with an error that has the message \<open>msg\<close> and the same stack.
\<close>

lemma thrown_error_rejects_caller:
  fixes A B :: "('a, 'b) AsyncCall"
  assumes req: "lossless (serializerRequest A) (serializerRequest B) (make_request (reflect A) m as i)"
    and res: "lossless (serializerResponse B) (serializerResponse A)
                \<lparr>return = VUndefined, rcallId = i, rmethod = m,
                 error = Some (VObject [(''message'', VStr msg), (''stack'', stk)] []),
                 rmetadata = None\<rparr>"
    and qA: "\<And>pkt. transport A pkt = []"
    and qB: "\<And>pkt. transport B pkt = []"
    and impl: "implementation_read B m = Some f"
    and thr: "\<And>this as'. f this as' = Rejects (VError msg stk ms)"
    and n: "3 \<le> n"
  shows "fst (round_trip A B m as i n) = Rejected (VError msg stk [])"
proof -
  let ?req = "make_request (reflect A) m as i"
  let ?resp = "\<lparr>return = VUndefined, rcallId = i, rmethod = m,
                error = Some (VObject [(''message'', VStr msg), (''stack'', stk)] []),
                rmetadata = None\<rparr>"
  obtain x where x: "serialization (serializerRequest A) ?req = Inr x"
      "deserialization (serializerRequest B) x = Inr ?req"
    using losslessD [OF req] by blast
  obtain y where y: "serialization (serializerResponse B) ?resp = Inr y"
      "deserialization (serializerResponse A) y = Inr ?resp"
    using losslessD [OF res] by blast
  obtain k where k: "n = Suc (Suc (Suc k))"
    using n by (metis Suc_le_D eval_nat_numeral(3) Suc_le_mono numeral_2_eq_2)
  have B: "sent (ticks B (Suc (Suc (Suc k))) (deliver B (Call x) init)) = [Return y]"
    using x(2) _ thr _ qB by (rule callee_fails) (use impl y(1) in simp_all)
  have "fst (round_trip A B m as i (Suc (Suc (Suc k)))) = settlement ?resp"
    using x(1) qA B y(2) by (rule round_trip_answered) simp
  then show ?thesis
    by (simp add: k settlement_def data_error_def newError_def)
qed

text \<open>The example: \<^verbatim>\<open>fail\<close> throws an error with the message \<^verbatim>\<open>boom\<close>.\<close>

lemma boom_rejects_caller:
  "fst (round_trip client lenient_server ''fail'' [] ''a'' 3)
     = Rejected (VError ''boom'' (VStr ''Error: boom at fail'') [])"
proof -
  have req: "lossless (serializerRequest client) (serializerRequest lenient_server)
               (make_request (reflect client) ''fail'' [] ''a'')"
    by (simp add: client_def lenient_server_def defaults_def instance_of_def)
  have res: "lossless (serializerResponse lenient_server) (serializerResponse client)
               \<lparr>return = VUndefined, rcallId = ''a'', rmethod = ''fail'',
                error = Some (VObject [(''message'', VStr ''boom''),
                                       (''stack'', VStr ''Error: boom at fail'')] []),
                rmetadata = None\<rparr>"
    by (simp add: client_def lenient_server_def defaults_def instance_of_def)
  have qA: "\<And>pkt. transport client pkt = []"
    by (simp add: client_def defaults_def instance_of_def)
  have qB: "\<And>pkt. transport lenient_server pkt = []"
    by (simp add: lenient_server_def defaults_def instance_of_def)
  have impl: "implementation_read lenient_server ''fail'' = Some fail"
    by (simp add: implementation_read_def lenient_server_def defaults_def instance_of_def server_def)
  have thr: "\<And>this as'. fail this as' = Rejects (VError ''boom'' (VStr ''Error: boom at fail'') [])"
    by (simp add: fail_def)
  show ?thesis
    using req res qA qB impl thr by (rule thrown_error_rejects_caller) simp
qed

text \<open>
  C3. A response whose \<^verbatim>\<open>error\<close> field is present should reject the pending call, and
  a failure of the implementation should reach the caller as a rejection. For an
  implementation whose \<^verbatim>\<open>fail\<close> throws the number 0 the code does neither. The
  \<^verbatim>\<open>catch\<close> block forwards a thrown value that is not an \<^verbatim>\<open>Error\<close> as it is (line 179),
  so the response that is sent has the \<^verbatim>\<open>error\<close> field present, holding 0; the test
  \<^verbatim>\<open>if (data.error)\<close> of line 202 takes the falsy 0 for no error, and the promise of the
  call \<^verbatim>\<open>remote.fail()\<close> is resolved, with undefined.
\<close>

theorem falsy_error_resolves:
  "sent (snd (snd (round_trip client zero_server ''fail'' [] ''a'' 3)))
     = [Return \<lparr>return = VUndefined, rcallId = ''a'', rmethod = ''fail'', error = Some (VNum 0),
                rmetadata = None\<rparr>] \<and>
   fst (round_trip client zero_server ''fail'' [] ''a'' 3) = Resolved VUndefined"
proof -
  let ?req = "make_request False ''fail'' [] ''a''"
  let ?resp = "\<lparr>return = VUndefined, rcallId = ''a'', rmethod = ''fail'', error = Some (VNum 0),
                rmetadata = None\<rparr>"
  have ser: "serialization (serializerRequest client) (make_request (reflect client) ''fail'' [] ''a'')
               = Inr ?req"
    by (simp add: client_def defaults_def instance_of_def NoSerialization_def)
  have qA: "transport client (Call ?req) = []"
    by (simp add: client_def defaults_def instance_of_def)
  have t1: "tick zero_server (on_call zero_server ?req init)
              = init\<lparr>console := [ConsoleLog ''default'' ?req (Rejects (VNum 0))],
                      suspended := [CallSettled ?req (Rejects (VNum 0))]\<rparr>"
    by (simp add: zero_server_def defaults_def instance_of_def NoSerialization_def init_def
        on_call_def suspend_def tick_def resume_def call_execute_def implementation_read_def
        console_write_def make_request_def Let_def)
  have t2: "tick zero_server (init\<lparr>console := [ConsoleLog ''default'' ?req (Rejects (VNum 0))],
                      suspended := [CallSettled ?req (Rejects (VNum 0))]\<rparr>)
              = init\<lparr>console := [ConsoleLog ''default'' ?req (Rejects (VNum 0)),
                                   ConsoleError VUndefined ''a'' VUndefined],
                      suspended := [ErrorSerialized (Inr ?resp)]\<rparr>"
    by (simp add: zero_server_def defaults_def instance_of_def NoSerialization_def init_def
        suspend_def tick_def resume_def catch_block_def console_write_def make_request_def
        Let_def)
  have t3: "tick zero_server (init\<lparr>console := [ConsoleLog ''default'' ?req (Rejects (VNum 0)),
                                   ConsoleError VUndefined ''a'' VUndefined],
                      suspended := [ErrorSerialized (Inr ?resp)]\<rparr>)
              = init\<lparr>console := [ConsoleLog ''default'' ?req (Rejects (VNum 0)),
                                   ConsoleError VUndefined ''a'' VUndefined],
                      sent := [Return ?resp]\<rparr>"
    by (simp add: zero_server_def defaults_def instance_of_def init_def
        tick_def resume_def message_send_def)
  have B: "sent (ticks zero_server (Suc 2) (deliver zero_server (Call ?req) init)) = [Return ?resp]"
    by (simp add: numeral_2_eq_2 t1 t2 t3)
  have de: "deserialization (serializerResponse client) ?resp = Inr ?resp"
    by (simp add: client_def defaults_def instance_of_def NoSerialization_def)
  have "fst (round_trip client zero_server ''fail'' [] ''a'' (Suc 2)) = settlement ?resp"
    using ser qA B de by (rule round_trip_answered) simp
  moreover have "snd (snd (round_trip client zero_server ''fail'' [] ''a'' (Suc 2)))
                   = ticks zero_server (Suc 2) (deliver zero_server (Call ?req) init)"
    using ser qA by (rule round_trip_callee)
  ultimately show ?thesis
    using B by (simp add: eval_nat_numeral settlement_def data_error_def)
qed

section \<open>Calls of a method that is not implemented\<close>

text \<open>
  A request for a method \<open>m\<close> for which the read \<^verbatim>\<open>implementation[m]\<close> gives nothing:
  neither the implementation object nor its prototype chain has the name. The transport
  only queues, and the serializers lose neither the request nor the error response. On
  a lenient side \<open>L\<close> (the default) the handler sends nothing and leaves nothing
  suspended, in whatever state it runs, and the caller's promise stays pending however
  many continuations are resumed. On a strict side \<open>S\<close> an error response is sent, with
  the message \<^verbatim>\<open>Remote-call: m() not implemented!\<close>, and the caller's promise is
  rejected with an error that has this message.
\<close>

lemma unimplemented_method_policy:
  fixes A L S :: "('a, 'b) AsyncCall"
  assumes noL: "implementation_read L m = None" and lenient: "dontThrowOnNotImplemented L"
    and noS: "implementation_read S m = None" and strict: "\<not> dontThrowOnNotImplemented S"
    and reqL: "lossless (serializerRequest A) (serializerRequest L) (make_request (reflect A) m as i)"
    and reqS: "lossless (serializerRequest A) (serializerRequest S) (make_request (reflect A) m as i)"
    and res: "lossless (serializerResponse S) (serializerResponse A)
                \<lparr>return = VUndefined, rcallId = i, rmethod = m,
                 error = Some (VObject
                    [(''message'', VStr (''Remote-call: '' @ m @ ''() not implemented!'')),
                     (''stack'', stackTrace S (''Remote-call: '' @ m @ ''() not implemented!''))] []),
                 rmetadata = None\<rparr>"
    and qA: "\<And>pkt. transport A pkt = []"
    and qS: "\<And>pkt. transport S pkt = []"
    and m: "method req = m"
    and n: "2 \<le> n"
  shows "sent (run_task L (CallDeserialized md (Inr req)) st) = sent st \<and>
         suspended (run_task L (CallDeserialized md (Inr req)) st) = suspended st \<and>
         (\<forall>k. fst (round_trip A L m as i k) = Pending) \<and>
         (\<exists>y. sent (snd (snd (round_trip A S m as i n))) = [Return y] \<and>
              deserialization (serializerResponse A) y =
                Inr \<lparr>return = VUndefined, rcallId = i, rmethod = m,
                     error = Some (VObject
                        [(''message'', VStr (''Remote-call: '' @ m @ ''() not implemented!'')),
                         (''stack'', stackTrace S (''Remote-call: '' @ m @ ''() not implemented!''))] []),
                     rmetadata = None\<rparr>) \<and>
         fst (round_trip A S m as i n) =
           Rejected (VError (''Remote-call: '' @ m @ ''() not implemented!'')
                       (stackTrace S (''Remote-call: '' @ m @ ''() not implemented!'')) [])"
proof -
  let ?req = "make_request (reflect A) m as i"
  let ?msg = "''Remote-call: '' @ m @ ''() not implemented!''"
  let ?resp = "\<lparr>return = VUndefined, rcallId = i, rmethod = m,
                error = Some (VObject [(''message'', VStr ?msg), (''stack'', stackTrace S ?msg)] []),
                rmetadata = None\<rparr>"
  have step: "sent (run_task L (CallDeserialized md (Inr req)) st) = sent st"
      "suspended (run_task L (CallDeserialized md (Inr req)) st) = suspended st"
    using noL lenient m by (simp_all add: call_execute_def console_write_def)
  obtain x where x: "serialization (serializerRequest A) ?req = Inr x"
      "deserialization (serializerRequest L) x = Inr ?req"
    using losslessD [OF reqL] by blast
  have xS: "deserialization (serializerRequest S) x = Inr ?req"
    using losslessD [OF reqS] x(1) by auto
  have "\<And>k. sent (ticks L (Suc k) (deliver L (Call x) init)) = []"
    using x(2) _ lenient by (rule callee_drops) (simp add: noL)
  then have pending: "\<And>k. fst (round_trip A L m as i k) = Pending"
    using x(1) qA by (rule round_trip_unanswered [rotated 2])
  obtain y where y: "serialization (serializerResponse S) ?resp = Inr y"
      "deserialization (serializerResponse A) y = Inr ?resp"
    using losslessD [OF res] by blast
  obtain k where k: "n = Suc (Suc k)"
    using n by (metis Suc_le_D Suc_le_mono numeral_2_eq_2)
  have S: "sent (ticks S (Suc (Suc k)) (deliver S (Call x) init)) = [Return y]"
    using xS _ strict _ qS by (rule callee_refuses) (use noS y(1) in simp_all)
  have "fst (round_trip A S m as i (Suc (Suc k))) = settlement ?resp"
    using x(1) qA S y(2) by (rule round_trip_answered) simp
  then have rejected: "fst (round_trip A S m as i n) = Rejected (VError ?msg (stackTrace S ?msg) [])"
    by (simp add: k settlement_def data_error_def newError_def)
  have "snd (snd (round_trip A S m as i (Suc (Suc k)))) = ticks S (Suc (Suc k)) (deliver S (Call x) init)"
    using x(1) qA by (rule round_trip_callee)
  then have "sent (snd (snd (round_trip A S m as i n))) = [Return y]"
    using S by (simp add: k)
  then have "\<exists>y. sent (snd (snd (round_trip A S m as i n))) = [Return y] \<and>
              deserialization (serializerResponse A) y = Inr ?resp"
    using y(2) by (intro exI conjI)
  then show ?thesis
    using step pending rejected by (intro conjI allI)
qed

text \<open>The example: \<^verbatim>\<open>multiply\<close>, which neither the object \<^verbatim>\<open>{ echo, fail }\<close> nor
  \<^verbatim>\<open>Object.prototype\<close> has.\<close>

lemma multiply_not_implemented:
  "(\<forall>k. fst (round_trip client lenient_server ''multiply'' [VNum 2, VNum 3] ''a'' k) = Pending) \<and>
   fst (round_trip client strict_server ''multiply'' [VNum 2, VNum 3] ''a'' 2) =
     Rejected (VError ''Remote-call: multiply() not implemented!''
                 (VStr ''Error: Remote-call: multiply() not implemented!'') [])"
proof -
  have noL: "implementation_read lenient_server ''multiply'' = None"
    by (simp add: implementation_read_def lenient_server_def defaults_def instance_of_def
        server_def Object_prototype_def)
  have lenient: "dontThrowOnNotImplemented lenient_server"
    by (simp add: lenient_server_def defaults_def instance_of_def)
  have noS: "implementation_read strict_server ''multiply'' = None"
    by (simp add: implementation_read_def strict_server_def instance_of_def server_def
        Object_prototype_def)
  have strict: "\<not> dontThrowOnNotImplemented strict_server"
    by (simp add: strict_server_def instance_of_def)
  have reqL: "lossless (serializerRequest client) (serializerRequest lenient_server)
                (make_request (reflect client) ''multiply'' [VNum 2, VNum 3] ''a'')"
    by (simp add: client_def lenient_server_def defaults_def instance_of_def)
  have reqS: "lossless (serializerRequest client) (serializerRequest strict_server)
                (make_request (reflect client) ''multiply'' [VNum 2, VNum 3] ''a'')"
    by (simp add: client_def strict_server_def defaults_def instance_of_def)
  have res: "lossless (serializerResponse strict_server) (serializerResponse client) r" for r
    by (simp add: client_def strict_server_def defaults_def instance_of_def)
  have qA: "\<And>pkt. transport client pkt = []"
    by (simp add: client_def defaults_def instance_of_def)
  have qS: "\<And>pkt. transport strict_server pkt = []"
    by (simp add: strict_server_def instance_of_def)
  have m: "method (make_request False ''multiply'' [VNum 2, VNum 3] ''a'') = ''multiply''"
    by simp
  have n: "(2::nat) \<le> 2"
    by simp
  show ?thesis
    using unimplemented_method_policy [OF noL lenient noS strict reqL reqS res qA qS m n]
    by (simp add: strict_server_def instance_of_def)
qed

text \<open>
  C4. A request whose method is absent from the implementation should be dropped by a
  lenient side and refused, with an error response, by a strict one. The code does
  neither for a name that the implementation object inherits. The side made with
  \<^verbatim>\<open>AsyncCall({ echo, fail })\<close> has no method \<^verbatim>\<open>toString\<close>, but line 139 reads
  \<^verbatim>\<open>implementation['toString']\<close>, which is \<^verbatim>\<open>Object.prototype.toString\<close>, and line 154
  runs it. Under both policies a response with the return value
  \<^verbatim>\<open>[object Undefined]\<close> is sent for the request that \<^verbatim>\<open>remote.toString()\<close> makes, and
  the caller's promise is resolved with this string.
\<close>

theorem inherited_method_answered:
  "implementation lenient_server ''toString'' = None \<and>
   dontThrowOnNotImplemented lenient_server \<and>
   sent (snd (snd (round_trip client lenient_server ''toString'' [] ''a'' 3)))
     = [Return \<lparr>return = VStr ''[object Undefined]'', rcallId = ''a'', rmethod = ''toString'',
                error = None, rmetadata = None\<rparr>] \<and>
   fst (round_trip client lenient_server ''toString'' [] ''a'' 3)
     = Resolved (VStr ''[object Undefined]'') \<and>
   implementation strict_server ''toString'' = None \<and>
   dontThrowOnNotImplemented strict_server = False \<and>
   sent (snd (snd (round_trip client strict_server ''toString'' [] ''a'' 3)))
     = [Return \<lparr>return = VStr ''[object Undefined]'', rcallId = ''a'', rmethod = ''toString'',
                error = None, rmetadata = None\<rparr>] \<and>
   fst (round_trip client strict_server ''toString'' [] ''a'' 3)
     = Resolved (VStr ''[object Undefined]'')"
proof -
  let ?req = "make_request False ''toString'' [] ''a''"
  let ?resp = "\<lparr>return = VStr ''[object Undefined]'', rcallId = ''a'', rmethod = ''toString'',
                error = None, rmetadata = None\<rparr>"
  let ?out = "Fulfils (VStr ''[object Undefined]'')"
  have ser: "serialization (serializerRequest client)
               (make_request (reflect client) ''toString'' [] ''a'') = Inr ?req"
    by (simp add: client_def defaults_def instance_of_def NoSerialization_def)
  have qA: "transport client (Call ?req) = []"
    by (simp add: client_def defaults_def instance_of_def)
  have de: "deserialization (serializerResponse client) ?resp = Inr ?resp"
    by (simp add: client_def defaults_def instance_of_def NoSerialization_def)
  have own: "implementation lenient_server ''toString'' = None"
      "implementation strict_server ''toString'' = None"
    by (simp_all add: lenient_server_def strict_server_def defaults_def instance_of_def
        server_def)
  have policy: "dontThrowOnNotImplemented lenient_server"
      "\<not> dontThrowOnNotImplemented strict_server"
    by (simp_all add: lenient_server_def strict_server_def defaults_def instance_of_def)
  have answer: "sent (ticks B (Suc 2) (deliver B (Call ?req) init)) = [Return ?resp]"
    if "B = lenient_server \<or> B = strict_server" for B
  proof -
    have t1: "tick B (on_call B ?req init)
                = init\<lparr>console := [ConsoleLog ''default'' ?req ?out],
                        suspended := [CallSettled ?req ?out]\<rparr>"
      using that
      by (auto simp add: lenient_server_def strict_server_def defaults_def instance_of_def NoSerialization_def init_def on_call_def suspend_def
          tick_def resume_def call_execute_def implementation_read_def server_def
          Object_prototype_def Object_prototype_toString_def console_write_def make_request_def
          Let_def)
    have t2: "tick B (init\<lparr>console := [ConsoleLog ''default'' ?req ?out],
                            suspended := [CallSettled ?req ?out]\<rparr>)
                = init\<lparr>console := [ConsoleLog ''default'' ?req ?out],
                        suspended := [ResponseSerialized ?req (Inr ?resp)]\<rparr>"
      using that
      by (auto simp add: lenient_server_def strict_server_def defaults_def instance_of_def NoSerialization_def init_def suspend_def tick_def
          resume_def call_respond_def getMetadata_def make_request_def Let_def)
    have t3: "tick B (init\<lparr>console := [ConsoleLog ''default'' ?req ?out],
                            suspended := [ResponseSerialized ?req (Inr ?resp)]\<rparr>)
                = init\<lparr>console := [ConsoleLog ''default'' ?req ?out], sent := [Return ?resp]\<rparr>"
      using that
      by (auto simp add: lenient_server_def strict_server_def defaults_def instance_of_def init_def tick_def resume_def message_send_def)
    show ?thesis
      by (simp add: numeral_2_eq_2 t1 t2 t3)
  qed
  have trip: "sent (snd (snd (round_trip client B ''toString'' [] ''a'' 3))) = [Return ?resp] \<and>
              fst (round_trip client B ''toString'' [] ''a'' 3) = Resolved (VStr ''[object Undefined]'')"
    if B: "B = lenient_server \<or> B = strict_server" for B
  proof -
    have "fst (round_trip client B ''toString'' [] ''a'' (Suc 2)) = settlement ?resp"
      using ser qA answer [OF B] de by (rule round_trip_answered) simp
    moreover have "snd (snd (round_trip client B ''toString'' [] ''a'' (Suc 2)))
                     = ticks B (Suc 2) (deliver B (Call ?req) init)"
      using ser qA by (rule round_trip_callee)
    ultimately show ?thesis
      using answer [OF B] by (simp add: eval_nat_numeral settlement_def data_error_def)
  qed
  show ?thesis
    using own policy trip [of lenient_server] trip [of strict_server] by simp
qed

section \<open>Two calls at once\<close>

lemma two_calls:
  fixes cfg :: "('a, 'b) AsyncCall"
  assumes q: "suspended st = []"
    and s1: "serialization (serializerRequest cfg) (make_request (reflect cfg) m1 as1 i1) = Inr x1"
    and s2: "serialization (serializerRequest cfg) (make_request (reflect cfg) m2 as2 i2) = Inr x2"
    and t1: "transport cfg (Call x1) = []" and t2: "transport cfg (Call x2) = []"
    and c1: "remote_call cfg (StringKey m1) as1 i1 st = (p1, st1)"
    and c2: "remote_call cfg (StringKey m2) as2 i2 st1 = (p2, st2)"
  shows "p1 = length (promises st)" and "p2 = Suc (length (promises st))"
    and "ticks cfg 2 st2 = st\<lparr>registry := (registry st)(i1 \<mapsto> p1, i2 \<mapsto> p2),
            promises := promises st @ [Pending, Pending], sent := sent st @ [Call x1, Call x2]\<rparr>"
  using assms
  by (auto simp add: remote_call_def Let_def suspend_def numeral_2_eq_2 tick_Cons message_send_quiet)




lemma client_two_calls:
  fixes st1 st2 :: "(request, response) state"
  assumes "remote_call client (StringKey m1) as1 i init = (0, st1)"
    and "remote_call client (StringKey m2) as2 j st1 = (1, st2)"
    and "gen init i" and "gen st1 j"
  shows "run client gen [(i, 0), (j, 1)] (ticks client 2 st2)"
    and "ticks client 2 st2 =
         init\<lparr>registry := [i \<mapsto> 0, j \<mapsto> 1], promises := [Pending, Pending],
               sent := [Call (make_request False m1 as1 i),
                        Call (make_request False m2 as2 j)]\<rparr>"
proof -
  have r1: "run client gen ([] @ [(i, 0)]) st1"
    using run.start assms(3,1) by (rule run.call)
  have r2: "run client gen (([] @ [(i, 0)]) @ [(j, 1)]) st2"
    using r1 assms(4,2) by (rule run.call)
  have s2: "suspended st2 =
      [RequestSerialized i 0 (Inr (make_request False m1 as1 i)),
       RequestSerialized j 1 (Inr (make_request False m2 as2 j))]"
    using assms(1,2)
    by (auto simp add: remote_call_def Let_def suspend_def init_def client_def defaults_def
        instance_of_def NoSerialization_def)
  have r3: "run client gen [(i, 0), (j, 1)] (tick client st2)"
    unfolding tick_def using r2 by (simp add: run.resume s2)
  have "suspended (tick client st2) =
      [RequestSerialized j 1 (Inr (make_request False m2 as2 j))]"
    by (simp add: tick_Cons [OF s2] Let_def message_send_def client_def defaults_def
        instance_of_def)
  then have "run client gen [(i, 0), (j, 1)] (tick client (tick client st2))"
    using r3 by (simp add: tick_def [of client "tick client st2"] run.resume)
  then show "run client gen [(i, 0), (j, 1)] (ticks client 2 st2)"
    by (simp add: numeral_2_eq_2)
  have q: "suspended (init :: (request, response) state) = []"
    by (simp add: init_def)
  show "ticks client 2 st2 =
         init\<lparr>registry := [i \<mapsto> 0, j \<mapsto> 1], promises := [Pending, Pending],
               sent := [Call (make_request False m1 as1 i),
                        Call (make_request False m2 as2 j)]\<rparr>"
    using two_calls(3) [OF q _ _ _ _ assms(1,2),
        of "make_request False m1 as1 i" "make_request False m2 as2 j"]
    by (simp add: client_def defaults_def instance_of_def NoSerialization_def init_def)
qed




section \<open>Responses to one call, one after the other\<close>

text \<open>Every event leads from a reachable state to a reachable state.\<close>

lemma step_run:
  assumes "run cfg anything cs st"
  shows "\<exists>cs'. run cfg anything cs' (step cfg ev st)"
proof (cases ev)
  case (Invoke k as i)
  show ?thesis
  proof (cases k)
    case (StringKey m)
    have "run cfg anything (cs @ [(i, fst (remote_call cfg (StringKey m) as i st))])
            (snd (remote_call cfg (StringKey m) as i st))"
      using assms by (rule run.call) (simp_all add: anything_def)
    then show ?thesis
      using Invoke StringKey by auto
  next
    case (SymbolKey s)
    have "run cfg anything cs (snd (remote_call cfg (SymbolKey s) as i st))"
      using assms by (rule run.bad_call [where p = "fst (remote_call cfg (SymbolKey s) as i st)"]) simp
    then show ?thesis
      using Invoke SymbolKey by auto
  qed
next
  case (Deliver pkt)
  then show ?thesis
    using run.receive [OF assms] by auto
next
  case (Resume n)
  show ?thesis
  proof (cases "n < length (suspended st)")
    case True
    then show ?thesis
      using Resume run.resume [OF assms] by auto
  next
    case False
    then show ?thesis
      using Resume assms by (auto simp add: resume_def)
  qed
qed


text \<open>What one event does to the registry entry of a call, to the calls that are being
  serialized and to a promise that is settled.\<close>

lemma step_invoke:
  "registry (step cfg (Invoke k as i) st) = registry st"
  "set (serializing (step cfg (Invoke k as i) st)) =
     set (serializing st) \<union> (case k of StringKey m \<Rightarrow> {(i, length (promises st))} | SymbolKey s \<Rightarrow> {})"
  "\<exists>x. promises (step cfg (Invoke k as i) st) = promises st @ [x]"
  by (cases k; simp add: remote_call_def Let_def suspend_def reject_def serializing_def)+

lemma without_mid_subset: "set (sp @ ss) \<subseteq> set (sp @ x # ss)"
  by auto

lemma step_keeps:
  assumes run: "run cfg anything cs st"
    and reg: "registry st c = Some p" and ser: "c \<notin> fst ` set (serializing st)"
    and fresh: "\<not> draws c ev" and no: "handles c ev st = None"
  shows "registry (step cfg ev st) c = Some p \<and> c \<notin> fst ` set (serializing (step cfg ev st))"
proof (cases ev)
  case (Invoke k as i)
  then show ?thesis
    using reg ser fresh step_invoke(1,2) [of cfg k as i st]
    by (cases k) auto
next
  case (Deliver pkt)
  then show ?thesis
    using reg ser quiet_deliver [of st cfg pkt] by (simp add: quiet_step_def)
next
  case (Resume n)
  show ?thesis
  proof (cases "n < length (suspended st)")
    case False
    then show ?thesis
      using Resume reg ser by (simp add: resume_def)
  next
    case True
    then show ?thesis
    proof (cases rule: resume_view [where cfg = cfg])
      case quiet
      then show ?thesis
        using Resume reg ser by (simp add: quiet_step_def)
    next
      case (register i q sp ss)
      have "i \<noteq> c"
        using ser register(1) by force
      then show ?thesis
        using Resume reg ser register without_mid_subset [of sp ss "(i, q)"] by auto
    next
      case (reject i q e sp ss)
      then show ?thesis
        using Resume reg ser without_mid_subset [of sp ss "(i, q)"] by auto
    next
      case (settle i q s m data)
      have "held c (suspended st ! n) = None"
        using no Resume True by (simp add: handles_def)
      then have "i \<noteq> c"
        using settle(6,7) by (auto split: if_splits)
      then show ?thesis
        using Resume reg ser settle by simp
    qed
  qed
qed

lemma step_after:
  assumes reg: "registry st c = None" and ser: "c \<notin> fst ` set (serializing st)"
    and fresh: "\<not> draws c ev"
  shows "registry (step cfg ev st) c = None \<and> c \<notin> fst ` set (serializing (step cfg ev st))"
proof (cases ev)
  case (Invoke k as i)
  then show ?thesis
    using reg ser fresh step_invoke(1,2) [of cfg k as i st]
    by (cases k) auto
next
  case (Deliver pkt)
  then show ?thesis
    using reg ser quiet_deliver [of st cfg pkt] by (simp add: quiet_step_def)
next
  case (Resume n)
  show ?thesis
  proof (cases "n < length (suspended st)")
    case False
    then show ?thesis
      using Resume reg ser by (simp add: resume_def)
  next
    case True
    then show ?thesis
    proof (cases rule: resume_view [where cfg = cfg])
      case quiet
      then show ?thesis
        using Resume reg ser by (simp add: quiet_step_def)
    next
      case (register i q sp ss)
      have "i \<noteq> c"
        using ser register(1) by force
      then show ?thesis
        using Resume reg ser register without_mid_subset [of sp ss "(i, q)"] by auto
    next
      case (reject i q e sp ss)
      then show ?thesis
        using Resume reg ser without_mid_subset [of sp ss "(i, q)"] by auto
    next
      case (settle i q s m data)
      then show ?thesis
        using Resume reg ser by simp
    qed
  qed
qed

lemma settle_at_settled: "prs ! p \<noteq> Pending \<Longrightarrow> settle_at q s prs ! p = prs ! p"
  by (cases "q = p") (simp_all add: settle_at_def)

lemma step_settled:
  assumes "p < length (promises st)" "promises st ! p \<noteq> Pending"
  shows "p < length (promises (step cfg ev st)) \<and> promises (step cfg ev st) ! p = promises st ! p"
proof (cases ev)
  case (Invoke k as i)
  then show ?thesis
    using assms step_invoke(3) [of cfg k as i st] by (auto simp add: nth_append)
next
  case (Deliver pkt)
  then show ?thesis
    using assms quiet_deliver [of st cfg pkt] by (simp add: quiet_step_def)
next
  case (Resume n)
  show ?thesis
  proof (cases "n < length (suspended st)")
    case False
    then show ?thesis
      using Resume assms by (simp add: resume_def)
  next
    case True
    then show ?thesis
    proof (cases rule: resume_view [where cfg = cfg])
      case quiet
      then show ?thesis
        using Resume assms by (simp add: quiet_step_def)
    next
      case (register i q sp ss)
      then show ?thesis
        using Resume assms by simp
    next
      case (reject i q e sp ss)
      then show ?thesis
        using Resume assms by (simp add: settle_at_settled)
    next
      case (settle i q s m data)
      then show ?thesis
        using Resume assms by (simp add: settle_at_settled)
    qed
  qed
qed

text \<open>The event that handles a response to the call \<open>c\<close> resumes the response handler
  at line 189: it settles the promise that is registered under \<open>c\<close>, and it changes
  nothing when there is none.\<close>

lemma serializing_remove:
  assumes "n < length (suspended st)" "task_call (suspended st ! n) = []"
  shows "serializing (st\<lparr>suspended := take n (suspended st) @ drop (Suc n) (suspended st)\<rparr>)
         = serializing st"
proof -
  have "serializing st = concat (map task_call (take n (suspended st) @ suspended st ! n #
                            drop (Suc n) (suspended st)))"
    unfolding serializing_def using resume_split [OF assms(1)] by simp
  then show ?thesis
    using assms(2) by (simp add: serializing_def)
qed

lemma handles_view:
  assumes "handles c ev st = Some r"
  obtains n m where "ev = Resume n" "n < length (suspended st)"
    "suspended st ! n = ResponseDeserialized m (Inr r)" "rcallId r = c"
    "step cfg ev st = response_settle cfg m r
       (st\<lparr>suspended := take n (suspended st) @ drop (Suc n) (suspended st)\<rparr>)"
proof -
  obtain n where n: "ev = Resume n" "n < length (suspended st)" "held c (suspended st ! n) = Some r"
    using assms by (cases ev) (auto simp add: handles_def split: if_splits)
  obtain m where m: "suspended st ! n = ResponseDeserialized m (Inr r)" "rcallId r = c"
    using n(3) by (cases "(c, suspended st ! n)" rule: held.cases) (auto split: if_splits)
  show ?thesis
    using that [OF n(1,2) m] n m by (simp add: resume_def)
qed

lemma step_settles:
  assumes run: "run cfg anything cs st"
    and reg: "registry st c = Some p" and ser: "c \<notin> fst ` set (serializing st)"
    and h: "handles c ev st = Some r"
  shows "registry (step cfg ev st) c = None" "c \<notin> fst ` set (serializing (step cfg ev st))"
    "p < length (promises (step cfg ev st))" "promises (step cfg ev st) ! p = settlement r"
proof -
  from h obtain n m where v: "ev = Resume n" "n < length (suspended st)"
      "suspended st ! n = ResponseDeserialized m (Inr r)" "rcallId r = c"
      "step cfg ev st = response_settle cfg m r
         (st\<lparr>suspended := take n (suspended st) @ drop (Suc n) (suspended st)\<rparr>)"
    by (rule handles_view)
  let ?st = "st\<lparr>suspended := take n (suspended st) @ drop (Suc n) (suspended st)\<rparr>"
  have f: "registry ?st (rcallId r) = Some p"
    using reg v(4) by simp
  note found = response_settle_found [OF f, of cfg m]
  have s: "serializing ?st = serializing st"
    using v(2) by (rule serializing_remove) (simp add: v(3))
  show "registry (step cfg ev st) c = None"
    using found(1) v(4) by (simp add: v(5))
  have "serializing (step cfg ev st) = serializing ?st"
    using found(3) by (simp add: v(5) serializing_def)
  then show "c \<notin> fst ` set (serializing (step cfg ev st))"
    using ser s by simp
  show "p < length (promises (step cfg ev st))"
    using found(2) run_registry(1) [OF run reg] by (simp add: v(5))
  show "promises (step cfg ev st) ! p = settlement r"
    using found(2) run_registry(1,2) [OF run reg] by (simp add: v(5) nth_settle_at_same)
qed

lemma step_drops:
  assumes reg: "registry st c = None" and h: "handles c ev st = Some r"
  shows "step cfg ev st = st\<lparr>suspended := suspended (step cfg ev st)\<rparr>"
proof -
  from h obtain n m where v: "ev = Resume n" "n < length (suspended st)"
      "suspended st ! n = ResponseDeserialized m (Inr r)" "rcallId r = c"
      "step cfg ev st = response_settle cfg m r
         (st\<lparr>suspended := take n (suspended st) @ drop (Suc n) (suspended st)\<rparr>)"
    by (rule handles_view)
  let ?st = "st\<lparr>suspended := take n (suspended st) @ drop (Suc n) (suspended st)\<rparr>"
  have "registry ?st (rcallId r) = None"
    using reg v(4) by simp
  then have "step cfg ev st = ?st"
    by (simp add: v(5) response_settle_not_found)
  then show ?thesis
    by simp
qed

text \<open>The same for a list of events: after the first handled response, and before it.\<close>

lemma steps_after:
  assumes "registry st c = None" "c \<notin> fst ` set (serializing st)"
    and "\<forall>ev\<in>set evs. \<not> draws c ev"
    and "p < length (promises st)" "promises st ! p \<noteq> Pending"
  shows "registry (steps cfg evs st) c = None \<and> promises (steps cfg evs st) ! p = promises st ! p"
  using assms
proof (induction evs arbitrary: st)
  case Nil
  then show ?case by simp
next
  case (Cons ev evs)
  have a: "registry (step cfg ev st) c = None \<and> c \<notin> fst ` set (serializing (step cfg ev st))"
    using Cons.prems(1,2) by (rule step_after) (use Cons.prems(3) in simp)
  have b: "p < length (promises (step cfg ev st)) \<and>
           promises (step cfg ev st) ! p = promises st ! p"
    using Cons.prems(4,5) by (rule step_settled)
  show ?case
    using Cons.IH [of "step cfg ev st"] a b Cons.prems(3,5) by simp
qed

lemma steps_before:
  assumes "run cfg anything cs st"
    and "registry st c = Some p" "c \<notin> fst ` set (serializing st)"
    and "\<forall>ev\<in>set evs. \<not> draws c ev"
  shows "promises (steps cfg evs st) ! p =
           (case responses_handled cfg c evs st of [] \<Rightarrow> Pending | r # rs \<Rightarrow> settlement r) \<and>
         registry (steps cfg evs st) c =
           (case responses_handled cfg c evs st of [] \<Rightarrow> Some p | r # rs \<Rightarrow> None)"
  using assms
proof (induction evs arbitrary: st cs)
  case Nil
  then show ?case
    using run_registry(2) by simp
next
  case (Cons ev evs)
  show ?case
  proof (cases "handles c ev st")
    case None
    obtain cs' where r: "run cfg anything cs' (step cfg ev st)"
      using step_run [OF Cons.prems(1)] by blast
    have k: "registry (step cfg ev st) c = Some p \<and> c \<notin> fst ` set (serializing (step cfg ev st))"
      using Cons.prems(1,2,3) _ None by (rule step_keeps) (use Cons.prems(4) in simp)
    show ?thesis
      using Cons.IH [OF r] k Cons.prems(4) None by simp
  next
    case (Some r)
    note s = step_settles [OF Cons.prems(1,2,3) Some]
    have "registry (steps cfg evs (step cfg ev st)) c = None \<and>
          promises (steps cfg evs (step cfg ev st)) ! p = promises (step cfg ev st) ! p"
      using s(1,2) _ s(3) by (rule steps_after) (use Cons.prems(4) s(4) in \<open>simp_all add: settlement_not_Pending\<close>)
    then show ?thesis
      using Some s(4) by simp
  qed
qed


text \<open>A continuation that runs adds to the suspended ones and takes none away, so a
  delivered response to \<open>c\<close> waits until it is handled: of the responses to \<open>c\<close>, those
  waiting at the start and those delivered are among those waiting at the end and those
  handled.\<close>

lemma deliveries_suspend:
  "\<exists>ts. suspended (foldl (\<lambda>s d. deliver cfg d s) st ds) = suspended st @ ts"
proof (induction ds arbitrary: st)
  case Nil
  show ?case by simp
next
  case (Cons d ds)
  obtain t where "suspended (deliver cfg d st) = suspended st @ [t]"
    by (cases d) (simp_all add: on_call_def on_return_def suspend_def)
  then show ?case
    using Cons.IH [of "deliver cfg d st"] by auto
qed

lemma message_send_suspends: "\<exists>ts. suspended (message_send cfg pkt st) = suspended st @ ts"
  unfolding message_send_def
  using deliveries_suspend [of cfg "st\<lparr>sent := sent st @ [pkt]\<rparr>" "transport cfg pkt"] by simp

lemma catch_block_suspends: "\<exists>ts. suspended (catch_block cfg data err st) = suspended st @ ts"
  by (simp add: catch_block_def Let_def uncaught_def suspend_def console_write_def)

lemma call_execute_suspends: "\<exists>ts. suspended (call_execute cfg m data st) = suspended st @ ts"
  unfolding call_execute_def Let_def
  using catch_block_suspends [of cfg data "notImplemented cfg (method data)" st]
  by (auto simp add: suspend_def console_write_def split: option.splits outcome.splits)

lemma response_settle_suspended: "suspended (response_settle cfg m r st) = suspended st"
  by (cases "registry st (rcallId r)")
    (simp_all add: response_settle_not_found response_settle_found(3))

lemma run_task_suspends: "\<exists>ts. suspended (run_task cfg t st) = suspended st @ ts"
proof (cases "(cfg, t, st)" rule: run_task.cases)
qed (auto simp add: uncaught_def call_execute_suspends call_respond_def Let_def suspend_def
    catch_block_suspends message_send_suspends response_settle_suspended suspended_reject)


lemma waiting_append:
  "suspended st' = suspended st @ ts \<Longrightarrow> waiting c st' = waiting c st @ List.map_filter (held c) ts"
  by (simp add: waiting_def map_filter_def)

lemma waiting_remove:
  assumes "n < length (suspended st)"
  shows "length (waiting c st) =
         length (waiting c (st\<lparr>suspended := take n (suspended st) @ drop (Suc n) (suspended st)\<rparr>)) +
         length (case held c (suspended st ! n) of None \<Rightarrow> [] | Some r \<Rightarrow> [r])"
proof -
  have "waiting c st = List.map_filter (held c) (take n (suspended st) @ suspended st ! n #
                            drop (Suc n) (suspended st))"
    unfolding waiting_def using resume_split [OF assms] by simp
  then show ?thesis
    by (simp add: waiting_def map_filter_def split: option.splits)
qed

lemma step_waiting:
  "length (waiting c st) + (if delivers cfg c ev then 1 else 0) \<le>
   length (waiting c (step cfg ev st)) +
   length (case handles c ev st of None \<Rightarrow> [] | Some r \<Rightarrow> [r])"
proof (cases ev)
  case (Invoke k as i)
  have "\<exists>ts. suspended (step cfg ev st) = suspended st @ ts"
    using Invoke by (cases k) (simp_all add: remote_call_def Let_def suspend_def reject_def)
  then show ?thesis
    using Invoke by (auto simp add: waiting_append)
next
  case (Deliver pkt)
  show ?thesis
  proof (cases pkt)
    case (Call x)
    then show ?thesis
      using Deliver by (simp add: on_call_def suspend_def waiting_def map_filter_def)
  next
    case (Return y)
    then show ?thesis
      using Deliver
      by (cases "deserialization (serializerResponse cfg) y")
        (simp_all add: on_return_def suspend_def waiting_def map_filter_def answers_def)
  qed
next
  case (Resume n)
  show ?thesis
  proof (cases "n < length (suspended st)")
    case False
    then show ?thesis
      using Resume by (simp add: resume_def)
  next
    case True
    let ?st = "st\<lparr>suspended := take n (suspended st) @ drop (Suc n) (suspended st)\<rparr>"
    obtain ts where "suspended (run_task cfg (suspended st ! n) ?st) = suspended ?st @ ts"
      using run_task_suspends by blast
    then have "waiting c (run_task cfg (suspended st ! n) ?st) =
               waiting c ?st @ List.map_filter (held c) ts"
      by (rule waiting_append)
    then have "length (waiting c ?st) \<le> length (waiting c (step cfg ev st))"
      using Resume True by (simp add: resume_def)
    then show ?thesis
      using waiting_remove [OF True, of c] Resume True by (simp add: handles_def)
  qed
qed

lemma steps_waiting:
  "length (waiting c st) + length (filter (delivers cfg c) evs) \<le>
   length (waiting c (steps cfg evs st)) + length (responses_handled cfg c evs st)"
proof (induction evs arbitrary: st)
  case Nil
  show ?case by simp
next
  case (Cons ev evs)
  show ?case
    using Cons.IH [of "step cfg ev st"] step_waiting [of c st cfg ev]
    by (simp split: option.splits if_splits)
qed

lemma delivered_handled:
  assumes "\<exists>e\<in>set evs. delivers cfg c e" "waiting c (steps cfg evs st) = []"
  shows "responses_handled cfg c evs st \<noteq> []"
proof -
  have "filter (delivers cfg c) evs \<noteq> []"
    using assms(1) by (simp add: filter_empty_conv)
  then have "0 < length (filter (delivers cfg c) evs)"
    by simp
  then show ?thesis
    using steps_waiting [of c st cfg evs] assms(2) by auto
qed

text \<open>
  C1, as the code has it. The id of a call is a random string that the code takes as it
  comes, so the claim needs the runs in which no id is generated while it is registered
  or on its way into the registry. In such a run let the call \<open>c\<close> with the promise \<open>p\<close>
  be outstanding in the state \<open>st\<close>: its request has been sent and its promise is
  pending. Let any events \<open>evs\<close> follow, in any order, none of which is a call that
  gets the id \<open>c\<close> again. Then:
  \<^item> the promise is pending as long as no response to \<open>c\<close> has been handled, and from
    then on it is what the first handled response to \<open>c\<close> has made of it: at most one
    response settles the call, the first one;
  \<^item> the entry of \<open>c\<close> is in the registry until then and is gone after that;
  \<^item> a response to \<open>c\<close> that is handled after the first one is dropped: the event \<open>ev\<close>
    that handles it changes nothing but the list of the suspended continuations;
  \<^item> if a response to \<open>c\<close> is delivered and no handler of a response to \<open>c\<close> is still
    waiting for its deserialization at the end, then a response to \<open>c\<close> has been handled,
    so the call is settled.
\<close>

theorem first_response_settles:
  assumes run: "run cfg unused cs st"
    and out: "(c, p) \<in> set (outstanding cs st)"
    and fresh: "\<forall>e\<in>set evs. \<not> draws c e"
  shows "promises (steps cfg evs st) ! p =
           (case responses_handled cfg c evs st of [] \<Rightarrow> Pending | r # rs \<Rightarrow> settlement r) \<and>
         registry (steps cfg evs st) c =
           (case responses_handled cfg c evs st of [] \<Rightarrow> Some p | r # rs \<Rightarrow> None) \<and>
         (responses_handled cfg c evs st \<noteq> [] \<longrightarrow> handles c ev (steps cfg evs st) \<noteq> None \<longrightarrow>
            step cfg ev (steps cfg evs st) =
              (steps cfg evs st)\<lparr>suspended := suspended (step cfg ev (steps cfg evs st))\<rparr>) \<and>
         ((\<exists>e\<in>set evs. delivers cfg c e) \<longrightarrow> waiting c (steps cfg evs st) = [] \<longrightarrow>
            responses_handled cfg c evs st \<noteq> [])"
proof -
  note reg = outstanding_registered [OF run out]
  note b = steps_before [OF run_anything [OF run] reg fresh]
  have "step cfg ev (steps cfg evs st) =
          (steps cfg evs st)\<lparr>suspended := suspended (step cfg ev (steps cfg evs st))\<rparr>"
    if "responses_handled cfg c evs st \<noteq> []" "handles c ev (steps cfg evs st) \<noteq> None"
  proof -
    have "registry (steps cfg evs st) c = None"
      using b that(1) by (cases "responses_handled cfg c evs st") simp_all
    then show ?thesis
      using that(2) step_drops by blast
  qed
  then show ?thesis
    using b delivered_handled [of evs cfg c st] by blast
qed


theorem first_response_settles_witness:
  "promises (steps client
      [Deliver (Return \<lparr>return = VStr ''z'', rcallId = ''b'', rmethod = ''echo'', error = None,
                         rmetadata = None\<rparr>),
       Resume 0,
       Deliver (Return \<lparr>return = VStr ''x'', rcallId = ''a'', rmethod = ''echo'', error = None,
                         rmetadata = None\<rparr>),
       Deliver (Return \<lparr>return = VStr ''late'', rcallId = ''a'', rmethod = ''echo'', error = None,
                         rmetadata = None\<rparr>),
       Resume 0]
      (tick client (snd (remote_call client (StringKey ''echo'') [VStr ''x''] ''a'' init)))) ! 0
     = Resolved (VStr ''x'') \<and>
   step client (Resume 0) (steps client
      [Deliver (Return \<lparr>return = VStr ''z'', rcallId = ''b'', rmethod = ''echo'', error = None,
                         rmetadata = None\<rparr>),
       Resume 0,
       Deliver (Return \<lparr>return = VStr ''x'', rcallId = ''a'', rmethod = ''echo'', error = None,
                         rmetadata = None\<rparr>),
       Deliver (Return \<lparr>return = VStr ''late'', rcallId = ''a'', rmethod = ''echo'', error = None,
                         rmetadata = None\<rparr>),
       Resume 0]
      (tick client (snd (remote_call client (StringKey ''echo'') [VStr ''x''] ''a'' init))))
     = (steps client
      [Deliver (Return \<lparr>return = VStr ''z'', rcallId = ''b'', rmethod = ''echo'', error = None,
                         rmetadata = None\<rparr>),
       Resume 0,
       Deliver (Return \<lparr>return = VStr ''x'', rcallId = ''a'', rmethod = ''echo'', error = None,
                         rmetadata = None\<rparr>),
       Deliver (Return \<lparr>return = VStr ''late'', rcallId = ''a'', rmethod = ''echo'', error = None,
                         rmetadata = None\<rparr>),
       Resume 0]
      (tick client (snd (remote_call client (StringKey ''echo'') [VStr ''x''] ''a'' init))))
       \<lparr>suspended := []\<rparr> \<and>
   promises (steps client
      [Deliver (Return \<lparr>return = VStr ''z'', rcallId = ''b'', rmethod = ''echo'', error = None,
                         rmetadata = None\<rparr>),
       Resume 0,
       Deliver (Return \<lparr>return = VStr ''x'', rcallId = ''a'', rmethod = ''echo'', error = None,
                         rmetadata = None\<rparr>),
       Deliver (Return \<lparr>return = VStr ''late'', rcallId = ''a'', rmethod = ''echo'', error = None,
                         rmetadata = None\<rparr>),
       Resume 0, Resume 0]
      (tick client (snd (remote_call client (StringKey ''echo'') [VStr ''x''] ''a'' init)))) ! 0
     = Resolved (VStr ''x'') \<and>
   waiting ''a'' (steps client
      [Deliver (Return \<lparr>return = VStr ''z'', rcallId = ''b'', rmethod = ''echo'', error = None,
                         rmetadata = None\<rparr>),
       Resume 0,
       Deliver (Return \<lparr>return = VStr ''x'', rcallId = ''a'', rmethod = ''echo'', error = None,
                         rmetadata = None\<rparr>),
       Deliver (Return \<lparr>return = VStr ''late'', rcallId = ''a'', rmethod = ''echo'', error = None,
                         rmetadata = None\<rparr>),
       Resume 0, Resume 0]
      (tick client (snd (remote_call client (StringKey ''echo'') [VStr ''x''] ''a'' init)))) = [] \<and>
   responses_handled client ''a''
      [Deliver (Return \<lparr>return = VStr ''z'', rcallId = ''b'', rmethod = ''echo'', error = None,
                         rmetadata = None\<rparr>),
       Resume 0,
       Deliver (Return \<lparr>return = VStr ''x'', rcallId = ''a'', rmethod = ''echo'', error = None,
                         rmetadata = None\<rparr>),
       Deliver (Return \<lparr>return = VStr ''late'', rcallId = ''a'', rmethod = ''echo'', error = None,
                         rmetadata = None\<rparr>),
       Resume 0, Resume 0]
      (tick client (snd (remote_call client (StringKey ''echo'') [VStr ''x''] ''a'' init)))
     = [\<lparr>return = VStr ''x'', rcallId = ''a'', rmethod = ''echo'', error = None, rmetadata = None\<rparr>,
        \<lparr>return = VStr ''late'', rcallId = ''a'', rmethod = ''echo'', error = None,
         rmetadata = None\<rparr>]"
proof -
  let ?st1 = "snd (remote_call client (StringKey ''echo'') [VStr ''x''] ''a'' init)"
  let ?rz = "\<lparr>return = VStr ''z'', rcallId = ''b'', rmethod = ''echo'', error = None,
              rmetadata = None\<rparr>"
  let ?rx = "\<lparr>return = VStr ''x'', rcallId = ''a'', rmethod = ''echo'', error = None,
              rmetadata = None\<rparr>"
  let ?late = "\<lparr>return = VStr ''late'', rcallId = ''a'', rmethod = ''echo'', error = None,
                rmetadata = None\<rparr>"
  let ?evs = "[Deliver (Return ?rz), Resume 0, Deliver (Return ?rx), Deliver (Return ?late),
               Resume 0] :: (request, response) event list"
  let ?evt = "[Deliver (Return ?rz), Resume 0, Deliver (Return ?rx), Deliver (Return ?late),
               Resume 0, Resume 0] :: (request, response) event list"
  have c1: "remote_call client (StringKey ''echo'') [VStr ''x''] ''a'' init = (0, ?st1)"
    by (simp add: remote_call_def init_def)
  have g: "unused (init :: (request, response) state) ''a''"
    by (simp add: unused_def init_def serializing_def)
  note oc = client_one_call [where gen = unused, OF c1 g]
  have out: "(''a'', 0) \<in> set (outstanding [(''a'', 0)] (tick client ?st1))"
    by (simp only: oc(2)) (simp add: outstanding_def serializing_def init_def)
  have fresh: "\<forall>e\<in>set ?evs. \<not> draws ''a'' e" and fresh': "\<forall>e\<in>set ?evt. \<not> draws ''a'' e"
    by simp_all
  show ?thesis
    using first_response_settles [OF oc(1) out fresh, of "Resume 0"]
      first_response_settles [OF oc(1) out fresh', of "Resume 0"]
    unfolding oc(2)
    by (simp add: client_def defaults_def instance_of_def NoSerialization_def init_def
        on_return_def suspend_def resume_def response_settle_def data_error_def settlement_def
        resolve_def handles_def waiting_def map_filter_def answers_def Let_def)
qed


text \<open>
  The claim as it was stated, for every sent request, fails when the generator gives
  the id of an outstanding call again: line 267 replaces the registry entry of the first
  call. Both requests below are sent with the id \<^verbatim>\<open>a\<close>, and two responses with this id
  are delivered and handled. The first settles the second call, the second is dropped,
  and no response settles the first call.
\<close>

theorem reused_id_leaves_call_pending:
  "sent (steps client
      [Invoke (StringKey ''echo'') [VStr ''x''] ''a'',
       Invoke (StringKey ''echo'') [VStr ''y''] ''a'',
       Resume 0, Resume 0,
       Deliver (Return \<lparr>return = VStr ''x'', rcallId = ''a'', rmethod = ''echo'', error = None,
                         rmetadata = None\<rparr>),
       Resume 0,
       Deliver (Return \<lparr>return = VStr ''y'', rcallId = ''a'', rmethod = ''echo'', error = None,
                         rmetadata = None\<rparr>),
       Resume 0] init)
     = [Call (make_request False ''echo'' [VStr ''x''] ''a''),
        Call (make_request False ''echo'' [VStr ''y''] ''a'')] \<and>
   promises (steps client
      [Invoke (StringKey ''echo'') [VStr ''x''] ''a'',
       Invoke (StringKey ''echo'') [VStr ''y''] ''a'',
       Resume 0, Resume 0,
       Deliver (Return \<lparr>return = VStr ''x'', rcallId = ''a'', rmethod = ''echo'', error = None,
                         rmetadata = None\<rparr>),
       Resume 0,
       Deliver (Return \<lparr>return = VStr ''y'', rcallId = ''a'', rmethod = ''echo'', error = None,
                         rmetadata = None\<rparr>),
       Resume 0] init)
     = [Pending, Resolved (VStr ''x'')] \<and>
   suspended (steps client
      [Invoke (StringKey ''echo'') [VStr ''x''] ''a'',
       Invoke (StringKey ''echo'') [VStr ''y''] ''a'',
       Resume 0, Resume 0,
       Deliver (Return \<lparr>return = VStr ''x'', rcallId = ''a'', rmethod = ''echo'', error = None,
                         rmetadata = None\<rparr>),
       Resume 0,
       Deliver (Return \<lparr>return = VStr ''y'', rcallId = ''a'', rmethod = ''echo'', error = None,
                         rmetadata = None\<rparr>),
       Resume 0] init)
     = []"
  by (simp add: client_def defaults_def instance_of_def NoSerialization_def init_def
      remote_call_def make_request_def getMetadata_def message_send_def
      on_return_def suspend_def resume_def response_settle_def data_error_def
      resolve_def Let_def)

section \<open>The ids of the outstanding calls\<close>

text \<open>
  C7, as the code has it. The id of a call is a random string, taken without a look at
  the registry. In the runs in which no generated id is in the registry, or on its way
  into it, when it is generated, the outstanding calls have pairwise different ids, and
  each of them is registered under its id with its own promise.
\<close>

theorem outstanding_ids_distinct:
  assumes "run cfg unused cs st"
  shows "distinct (map fst (outstanding cs st)) \<and>
         (\<forall>c\<in>set (outstanding cs st). registry st (fst c) = Some (snd c))"
proof -
  note b = run_base [OF assms] and e = run_extras [OF assms]
  have reg: "registry st (fst c) = Some (snd c)" if "c \<in> set (outstanding cs st)" for c
  proof -
    have "(fst c, snd c) \<in> set cs" "promises st ! snd c = Pending"
      "(fst c, snd c) \<notin> set (serializing st)"
      using that by (simp_all add: outstanding_def)
    then show ?thesis
      using collision_free_csD [OF e] by blast
  qed
  have "distinct cs"
    using tracked_distinct [OF b] by (simp add: distinct_map)
  then have d: "distinct (outstanding cs st)"
    by (simp add: outstanding_def)
  have "inj_on fst (set (outstanding cs st))"
  proof (rule inj_onI)
    fix c c' assume "c \<in> set (outstanding cs st)" "c' \<in> set (outstanding cs st)" "fst c = fst c'"
    then show "c = c'"
      using reg [of c] reg [of c'] by (simp add: prod_eq_iff)
  qed
  then have "distinct (map fst (outstanding cs st))"
    using d by (simp add: distinct_map)
  then show ?thesis
    using reg by blast
qed

theorem outstanding_ids_distinct_witness:
  "run client unused [(''a'', 0), (''b'', 1)]
     (ticks client 2
        (snd (remote_call client (StringKey ''echo'') [VStr ''y''] ''b''
           (snd (remote_call client (StringKey ''echo'') [VStr ''x''] ''a'' init))))) \<and>
   map fst (outstanding [(''a'', 0), (''b'', 1)]
     (ticks client 2
        (snd (remote_call client (StringKey ''echo'') [VStr ''y''] ''b''
           (snd (remote_call client (StringKey ''echo'') [VStr ''x''] ''a'' init))))))
     = [''a'', ''b''] \<and>
   distinct (map fst (outstanding [(''a'', 0), (''b'', 1)]
     (ticks client 2
        (snd (remote_call client (StringKey ''echo'') [VStr ''y''] ''b''
           (snd (remote_call client (StringKey ''echo'') [VStr ''x''] ''a'' init)))))))"
proof -
  let ?st1 = "snd (remote_call client (StringKey ''echo'') [VStr ''x''] ''a'' init)"
  let ?st2 = "snd (remote_call client (StringKey ''echo'') [VStr ''y''] ''b'' ?st1)"
  have c1: "remote_call client (StringKey ''echo'') [VStr ''x''] ''a'' init = (0, ?st1)"
    by (simp add: remote_call_def init_def)
  have c2: "remote_call client (StringKey ''echo'') [VStr ''y''] ''b'' ?st1 = (1, ?st2)"
    by (simp add: remote_call_def init_def suspend_def)
  have g1: "unused (init :: (request, response) state) ''a''"
    by (simp add: unused_def init_def serializing_def)
  have g2: "unused ?st1 ''b''"
    by (simp add: unused_def remote_call_def init_def suspend_def serializing_def)
  note tc = client_two_calls [where gen = unused, OF c1 c2 g1 g2]
  have "map fst (outstanding [(''a'', 0), (''b'', 1)] (ticks client 2 ?st2)) = [''a'', ''b'']"
    by (simp only: tc(2)) (simp add: outstanding_def serializing_def init_def)
  then show ?thesis
    using tc(1) outstanding_ids_distinct [OF tc(1)] by simp
qed

text \<open>The claim as it was stated, for every reachable state, fails: nothing keeps the
  generator from giving the id of an outstanding call again. Then both requests have
  been sent with this id and both promises are pending, and the registry holds the
  second call only.\<close>

theorem repeated_id_outstanding_twice:
  "run client anything [(''a'', 0), (''a'', 1)]
     (ticks client 2
        (snd (remote_call client (StringKey ''echo'') [VStr ''y''] ''a''
           (snd (remote_call client (StringKey ''echo'') [VStr ''x''] ''a'' init))))) \<and>
   map fst (outstanding [(''a'', 0), (''a'', 1)]
     (ticks client 2
        (snd (remote_call client (StringKey ''echo'') [VStr ''y''] ''a''
           (snd (remote_call client (StringKey ''echo'') [VStr ''x''] ''a'' init))))))
     = [''a'', ''a''] \<and>
   registry (ticks client 2
        (snd (remote_call client (StringKey ''echo'') [VStr ''y''] ''a''
           (snd (remote_call client (StringKey ''echo'') [VStr ''x''] ''a'' init))))) ''a''
     = Some 1 \<and>
   \<not> distinct (map fst (outstanding [(''a'', 0), (''a'', 1)]
     (ticks client 2
        (snd (remote_call client (StringKey ''echo'') [VStr ''y''] ''a''
           (snd (remote_call client (StringKey ''echo'') [VStr ''x''] ''a'' init)))))))"
proof -
  let ?st1 = "snd (remote_call client (StringKey ''echo'') [VStr ''x''] ''a'' init)"
  let ?st2 = "snd (remote_call client (StringKey ''echo'') [VStr ''y''] ''a'' ?st1)"
  have c1: "remote_call client (StringKey ''echo'') [VStr ''x''] ''a'' init = (0, ?st1)"
    by (simp add: remote_call_def init_def)
  have c2: "remote_call client (StringKey ''echo'') [VStr ''y''] ''a'' ?st1 = (1, ?st2)"
    by (simp add: remote_call_def init_def suspend_def)
  have g1: "anything (init :: (request, response) state) ''a''" and g2: "anything ?st1 ''a''"
    by (simp_all add: anything_def)
  note tc = client_two_calls [where gen = anything, OF c1 c2 g1 g2]
  have "map fst (outstanding [(''a'', 0), (''a'', 1)] (ticks client 2 ?st2)) = [''a'', ''a'']"
    by (simp only: tc(2)) (simp add: outstanding_def serializing_def init_def)
  moreover have "registry (ticks client 2 ?st2) ''a'' = Some 1"
    by (simp only: tc(2)) simp
  ultimately show ?thesis
    using tc(1) by simp
qed

end
